theory Spec2Isabelle
  imports Main "HOL-Library.Word"
begin

section \<open>The KeyValues document tree\<close>

text \<open>
  The embedding follows \<^verbatim>\<open>class KeyValues\<close> of KeyValues.hpp. C strings
  (\<^verbatim>\<open>char *\<close>) are \<open>string option\<close>: \<open>None\<close> is the null pointer and
  \<open>Some s\<close> holds the characters before the terminating NUL. \<^verbatim>\<open>long int\<close> is a
  64-bit word, \<^verbatim>\<open>int\<close> a 32-bit word, and a \<^verbatim>\<open>double\<close> is carried
  as its 64-bit pattern, on which the model never computes.
\<close>

type_synonym long = "64 word"
type_synonym cint = "32 word"
type_synonym double = "64 word"

text \<open>
  \<^verbatim>\<open>enum class ELastCached\<close> together with the union \<^verbatim>\<open>cachedv\<close>:
  the code reads a union member only under the matching tag, so tag and active member
  form one sum type.
\<close>

datatype ELastCached = Cached_NONE | Cached_INT long | Cached_FLOAT double | Cached_BOOL bool

record Key =
  key :: "string option"
  kvalue :: "string option"
  cached :: ELastCached
  kquoted :: bool

datatype KeyValues =
  KeyValues (name: "string option") (good: bool) (quoted: bool)
    (keys: "Key list") (child_sections: "KeyValues list")

definition keys_update :: "(Key list \<Rightarrow> Key list) \<Rightarrow> KeyValues \<Rightarrow> KeyValues" where
  "keys_update f this =
     KeyValues (name this) (good this) (quoted this) (f (keys this)) (child_sections this)"

definition good_update :: "bool \<Rightarrow> KeyValues \<Rightarrow> KeyValues" where
  "good_update b this =
     KeyValues (name this) b (quoted this) (keys this) (child_sections this)"

subsection \<open>C library functions used by the typed readers\<close>

definition c_isspace :: "char \<Rightarrow> bool" where
  "c_isspace c = (c = CHR '' '' \<or> (9 \<le> (of_char c :: nat) \<and> (of_char c :: nat) \<le> 13))"

definition c_isdigit :: "char \<Rightarrow> bool" where
  "c_isdigit c = (48 \<le> (of_char c :: nat) \<and> (of_char c :: nat) \<le> 57)"

definition c_tolower :: "char \<Rightarrow> char" where
  "c_tolower c =
     (case map_of (zip ''ABCDEFGHIJKLMNOPQRSTUVWXYZ'' ''abcdefghijklmnopqrstuvwxyz'') c of
        Some l \<Rightarrow> l
      | None \<Rightarrow> c)"

text \<open>\<^verbatim>\<open>strcasecmp(a, b) == 0\<close> in the C locale.\<close>

definition strcasecmp_eq :: "string \<Rightarrow> string \<Rightarrow> bool" where
  "strcasecmp_eq a b = (map c_tolower a = map c_tolower b)"

fun decimal :: "int \<Rightarrow> string \<Rightarrow> int" where
  "decimal acc [] = acc"
| "decimal acc (c # cs) = decimal (acc * 10 + (of_char c - 48)) cs"

text \<open>
  Modelled from the spec: the C library's \<^verbatim>\<open>strtol(nptr, nullptr, 10)\<close> is not
  under src/. The spec says the reference accepts a leading numeric prefix
  (\<^verbatim>\<open>"12abc"\<close> parses as 12); the rest is ISO C 7.22.1.4 as glibc implements it:
  leading white space and one sign are skipped, the longest run of decimal digits is
  converted, a value outside \<^verbatim>\<open>long\<close> is clamped with \<^verbatim>\<open>errno = ERANGE\<close>
  (34), and when there is no digit the result is 0 and \<^verbatim>\<open>errno\<close> is left as it
  was. The second argument and the second component of the result are \<^verbatim>\<open>errno\<close>
  before and after the call.
\<close>

definition strtol :: "string \<Rightarrow> int \<Rightarrow> long \<times> int" where
  "strtol nptr errno =
     (let s1 = dropWhile c_isspace nptr;
          neg = (case s1 of c # r \<Rightarrow> c = CHR ''-'' | [] \<Rightarrow> False);
          s2 = (case s1 of c # r \<Rightarrow> if c = CHR ''-'' \<or> c = CHR ''+'' then r else s1
                | [] \<Rightarrow> s1);
          ds = takeWhile c_isdigit s2;
          n = (if neg then - decimal 0 ds else decimal 0 ds)
      in if ds = [] then (0, errno)
         else if n > 9223372036854775807 then (word_of_int 9223372036854775807, 34)
         else if n < - 9223372036854775808 then (word_of_int (- 9223372036854775808), 34)
         else (word_of_int n, errno))"

subsection \<open>Typed readers of one entry\<close>

text \<open>
  \<^verbatim>\<open>Key::ReadBool\<close> and \<^verbatim>\<open>Key::ReadInt\<close> return the value, the flag
  \<^verbatim>\<open>ok\<close> and the entry they were called on (they write its cache);
  \<^verbatim>\<open>ReadInt\<close> also threads \<^verbatim>\<open>errno\<close>, which it tests and never clears.
\<close>

definition ReadBool :: "Key \<Rightarrow> bool \<times> bool \<times> Key" where
  "ReadBool this =
     (case cached this of
        Cached_BOOL b \<Rightarrow> (b, True, this)
      | _ \<Rightarrow>
         (case kvalue this of
            None \<Rightarrow> (False, False, this)
          | Some v \<Rightarrow>
             if strcasecmp_eq v ''true'' \<or> v = ''1''
               then (True, True, this\<lparr>cached := Cached_BOOL True\<rparr>)
             else if strcasecmp_eq v ''false'' \<or> v = ''0''
               then (False, True, this\<lparr>cached := Cached_BOOL False\<rparr>)
             else (False, False, this)))"

definition ReadInt :: "Key \<Rightarrow> int \<Rightarrow> long \<times> bool \<times> Key \<times> int" where
  "ReadInt this errno =
     (case cached this of
        Cached_INT i \<Rightarrow> (i, True, this, errno)
      | _ \<Rightarrow>
         (case kvalue this of
            None \<Rightarrow> (0, False, this, errno)
          | Some v \<Rightarrow>
             (let (r, errno') = strtol v errno
              in if errno' = 0 then (r, True, this\<lparr>cached := Cached_INT r\<rparr>, errno')
                 else (0, False, this, errno'))))"

subsection \<open>Getters\<close>

text \<open>
  The getters walk \<^verbatim>\<open>for (auto _key : this->keys)\<close>: the loop variable is a copy
  of the entry, so what \<^verbatim>\<open>ReadBool\<close>/\<^verbatim>\<open>ReadInt\<close> write goes to the copy
  and the section keeps its entries as they were. \<^verbatim>\<open>GetBool\<close> and \<^verbatim>\<open>GetInt\<close>
  return their result and the section after the call. \<^verbatim>\<open>GetFloat\<close> and
  \<^verbatim>\<open>GetDouble\<close> repeat \<^verbatim>\<open>GetInt\<close> with \<^verbatim>\<open>ReadFloat\<close> and
  \<^verbatim>\<open>strtod\<close>; they are left out, since the model does not compute on doubles.
\<close>

fun GetBool_loop :: "Key list \<Rightarrow> string \<Rightarrow> bool \<Rightarrow> bool" where
  "GetBool_loop [] k d = d"
| "GetBool_loop (e # es) k d =
     (if key e = Some k
      then (case ReadBool e of (b, ok, copy) \<Rightarrow> if ok then b else d)
      else GetBool_loop es k d)"

definition GetBool :: "KeyValues \<Rightarrow> string \<Rightarrow> bool \<Rightarrow> bool \<times> KeyValues" where
  "GetBool this k d = (GetBool_loop (keys this) k d, this)"

fun GetInt_loop :: "Key list \<Rightarrow> string \<Rightarrow> cint \<Rightarrow> int \<Rightarrow> cint \<times> int" where
  "GetInt_loop [] k d errno = (d, errno)"
| "GetInt_loop (e # es) k d errno =
     (if key e = Some k
      then (case ReadInt e errno of
              (i, ok, copy, errno') \<Rightarrow> if ok then (ucast i, errno') else (d, errno'))
      else GetInt_loop es k d errno)"

definition GetInt :: "KeyValues \<Rightarrow> string \<Rightarrow> cint \<Rightarrow> int \<Rightarrow> cint \<times> KeyValues \<times> int" where
  "GetInt this k d errno =
     (case GetInt_loop (keys this) k d errno of (r, errno') \<Rightarrow> (r, this, errno'))"

fun GetString_loop :: "Key list \<Rightarrow> string \<Rightarrow> string option \<Rightarrow> string option" where
  "GetString_loop [] k d = d"
| "GetString_loop (e # es) k d = (if key e = Some k then kvalue e else GetString_loop es k d)"

definition GetString :: "KeyValues \<Rightarrow> string \<Rightarrow> string option \<Rightarrow> string option" where
  "GetString this k d = GetString_loop (keys this) k d"

subsection \<open>Setters and removal\<close>

text \<open>
  The setters walk \<^verbatim>\<open>for (auto &_key : this->keys)\<close>, by reference, and return
  at the first entry whose key matches. \<^verbatim>\<open>SetFloat\<close> takes the \<^verbatim>\<open>float\<close>
  argument as the \<^verbatim>\<open>double\<close> it is widened to on assignment.
\<close>

fun SetBool_loop :: "Key list \<Rightarrow> string \<Rightarrow> bool \<Rightarrow> Key list" where
  "SetBool_loop [] k v = []"
| "SetBool_loop (e # es) k v =
     (if key e = Some k then e\<lparr>cached := Cached_BOOL v\<rparr> # es else e # SetBool_loop es k v)"

fun SetInt_loop :: "Key list \<Rightarrow> string \<Rightarrow> cint \<Rightarrow> Key list" where
  "SetInt_loop [] k v = []"
| "SetInt_loop (e # es) k v =
     (if key e = Some k then e\<lparr>cached := Cached_INT (scast v)\<rparr> # es else e # SetInt_loop es k v)"

fun SetFloat_loop :: "Key list \<Rightarrow> string \<Rightarrow> double \<Rightarrow> Key list" where
  "SetFloat_loop [] k v = []"
| "SetFloat_loop (e # es) k v =
     (if key e = Some k then e\<lparr>cached := Cached_FLOAT v\<rparr> # es else e # SetFloat_loop es k v)"

fun SetString_loop :: "Key list \<Rightarrow> string \<Rightarrow> string \<Rightarrow> Key list" where
  "SetString_loop [] k v = []"
| "SetString_loop (e # es) k v =
     (if key e = Some k then e\<lparr>cached := Cached_NONE, kvalue := Some v\<rparr> # es
      else e # SetString_loop es k v)"

fun ClearKey_loop :: "Key list \<Rightarrow> string \<Rightarrow> Key list" where
  "ClearKey_loop [] k = []"
| "ClearKey_loop (e # es) k =
     (if key e = Some k then e\<lparr>kvalue := Some [], cached := Cached_NONE\<rparr> # es
      else e # ClearKey_loop es k)"

text \<open>\<^verbatim>\<open>RemoveKey\<close> compares its argument with \<^verbatim>\<open>it->value\<close>.\<close>

fun RemoveKey_loop :: "Key list \<Rightarrow> string \<Rightarrow> Key list" where
  "RemoveKey_loop [] k = []"
| "RemoveKey_loop (e # es) k =
     (if kvalue e = Some k then es else e # RemoveKey_loop es k)"

definition SetBool :: "KeyValues \<Rightarrow> string \<Rightarrow> bool \<Rightarrow> KeyValues" where
  "SetBool this k v = keys_update (\<lambda>ks. SetBool_loop ks k v) this"

definition SetInt :: "KeyValues \<Rightarrow> string \<Rightarrow> cint \<Rightarrow> KeyValues" where
  "SetInt this k v = keys_update (\<lambda>ks. SetInt_loop ks k v) this"

definition SetFloat :: "KeyValues \<Rightarrow> string \<Rightarrow> double \<Rightarrow> KeyValues" where
  "SetFloat this k v = keys_update (\<lambda>ks. SetFloat_loop ks k v) this"

definition SetString :: "KeyValues \<Rightarrow> string \<Rightarrow> string \<Rightarrow> KeyValues" where
  "SetString this k v = keys_update (\<lambda>ks. SetString_loop ks k v) this"

definition ClearKey :: "KeyValues \<Rightarrow> string \<Rightarrow> KeyValues" where
  "ClearKey this k = keys_update (\<lambda>ks. ClearKey_loop ks k) this"

definition RemoveKey :: "KeyValues \<Rightarrow> string \<Rightarrow> KeyValues" where
  "RemoveKey this k = keys_update (\<lambda>ks. RemoveKey_loop ks k) this"


section \<open>The scanner \<^verbatim>\<open>KeyValues::ParseString\<close>\<close>

datatype EError =
  EError_NONE | UNEXPECTED_EOF | MISSING_BRACKET | MISSING_QUOTE | UNNAMED_SECTION
  | UNTERMINATED_SECTION

text \<open>
  What C++ leaves undefined is a result of its own: a write past \<^verbatim>\<open>char buf[512]\<close>,
  a write past or a read below \<^verbatim>\<open>KeyValues *stack[512]\<close>, a null string handed to
  \<^verbatim>\<open>strlen\<close> or \<^verbatim>\<open>fprintf\<close>, an overflow of \<^verbatim>\<open>int i\<close>, and a write
  past the indentation buffer of the serializer.
\<close>

datatype undefined_behaviour =
  Buffer_Overflow | Stack_Overflow | Stack_Underflow | Null_String | Int_Overflow
  | Indent_Overflow

datatype 'a outcome = Undefined undefined_behaviour | Returns 'a

fun bind_outcome :: "'a outcome \<Rightarrow> ('a \<Rightarrow> 'b outcome) \<Rightarrow> 'b outcome" where
  "bind_outcome (Undefined u) f = Undefined u"
| "bind_outcome (Returns x) f = f x"

text \<open>
  The local variables of \<^verbatim>\<open>ParseString\<close>. \<open>RootKV\<close> is the object the method runs
  on, with every section created so far; \<open>errors\<close> lists the calls of
  \<^verbatim>\<open>ReportError\<close> (what the callback, when one is set, receives). \<open>buf\<close> holds
  \<^verbatim>\<open>buf[0 .. bufpos - 1]\<close>, so \<^verbatim>\<open>bufpos\<close> is its length.

  The pointer \<^verbatim>\<open>CurrentKV\<close> always equals \<^verbatim>\<open>stack[stackpos]\<close>, and
  \<^verbatim>\<open>stack[k + 1]\<close> is the child that was appended last to \<^verbatim>\<open>stack[k]\<close>
  (a section receives children only while it is on top). So \<^verbatim>\<open>CurrentKV\<close> is the
  section reached from the root by descending \<open>stackpos\<close> times into the last child,
  and a write through the pointer is \<open>on_CurrentKV\<close> (whose case of a section without
  children does not arise there). \<open>stackpos\<close> is a natural number: the step that would
  make it negative reads \<^verbatim>\<open>stack[-1]\<close>, and the model stops there.
\<close>

record pstate =
  RootKV :: KeyValues
  errors :: "(int \<times> int \<times> EError) list"
  nline :: int
  nchar :: int
  bracket_level :: int
  inquote :: bool
  incomment :: bool
  parsed_key :: bool
  buf :: string
  CurrentKey :: Key
  stackpos :: nat
  pc :: char
  nc :: char

definition child_sections_update ::
    "(KeyValues list \<Rightarrow> KeyValues list) \<Rightarrow> KeyValues \<Rightarrow> KeyValues" where
  "child_sections_update f this =
     KeyValues (name this) (good this) (quoted this) (keys this) (f (child_sections this))"

definition quoted_update :: "bool \<Rightarrow> KeyValues \<Rightarrow> KeyValues" where
  "quoted_update b this =
     KeyValues (name this) (good this) b (keys this) (child_sections this)"

fun on_CurrentKV :: "nat \<Rightarrow> (KeyValues \<Rightarrow> KeyValues) \<Rightarrow> KeyValues \<Rightarrow> KeyValues" where
  "on_CurrentKV 0 f kv = f kv"
| "on_CurrentKV (Suc n) f kv =
     (if child_sections kv = [] then kv
      else child_sections_update (\<lambda>cs. butlast cs @ [on_CurrentKV n f (last cs)]) kv)"

definition kvstrdup :: "string \<Rightarrow> string" where
  "kvstrdup s = takeWhile (\<lambda>c. c \<noteq> CHR 0x00) s"

text \<open>The constructors \<^verbatim>\<open>KeyValues()\<close> and \<^verbatim>\<open>KeyValues(name)\<close>.\<close>

definition KeyValues_new :: KeyValues where
  "KeyValues_new = KeyValues None True False [] []"

definition KeyValues_named :: "string \<Rightarrow> KeyValues" where
  "KeyValues_named n = KeyValues (Some (kvstrdup n)) True False [] []"

definition internal_isspace :: "char \<Rightarrow> bool" where
  "internal_isspace c =
     (c = CHR '' '' \<or> c = CHR 0x09 \<or> c = CHR 0x0A \<or> c = CHR 0x0D)"

definition ReportError :: "int \<Rightarrow> int \<Rightarrow> EError \<Rightarrow> pstate \<Rightarrow> pstate" where
  "ReportError line char err st =
     st\<lparr>errors := errors st @ [(line, char, err)], RootKV := good_update False (RootKV st)\<rparr>"

text \<open>
  The three places that end a token (newline, closing quote, white space) run the same
  statements but for \<^verbatim>\<open>CurrentKey.quoted\<close>: the newline leaves it (\<open>None\<close>), the
  closing quote sets it, white space clears it. \<^verbatim>\<open>buf[bufpos] = 0\<close> needs
  \<^verbatim>\<open>bufpos \<le> 511\<close>.
\<close>

definition save_token :: "bool option \<Rightarrow> pstate \<Rightarrow> pstate outcome" where
  "save_token q st =
     (if length (buf st) > 511 then Undefined Buffer_Overflow
      else
        let tok = kvstrdup (buf st);
            K = (case q of None \<Rightarrow> CurrentKey st | Some b \<Rightarrow> (CurrentKey st)\<lparr>kquoted := b\<rparr>)
        in if parsed_key st
           then Returns (st\<lparr>parsed_key := False,
                  RootKV := on_CurrentKV (stackpos st)
                    (keys_update (\<lambda>ks. ks @ [K\<lparr>kvalue := Some tok\<rparr>])) (RootKV st),
                  CurrentKey := K\<lparr>key := None, kvalue := None\<rparr>,
                  buf := []\<rparr>)
           else Returns (st\<lparr>CurrentKey := K\<lparr>key := Some tok\<rparr>, parsed_key := True,
                  buf := []\<rparr>))"

text \<open>
  The tail of the \<^verbatim>\<open>{\<close> branch, once \<^verbatim>\<open>pKV\<close> is allocated:
  \<^verbatim>\<open>stack[++stackpos] = pKV\<close> needs \<^verbatim>\<open>stackpos + 1 \<le> 511\<close>.
\<close>

definition enter_scope :: "KeyValues \<Rightarrow> pstate \<Rightarrow> pstate outcome" where
  "enter_scope pKV st =
     (let pKV' = (if kquoted (CurrentKey st) then quoted_update True pKV else pKV)
      in if stackpos st + 1 > 511 then Undefined Stack_Overflow
         else Returns (st\<lparr>parsed_key := False,
                RootKV := on_CurrentKV (stackpos st)
                  (child_sections_update (\<lambda>cs. cs @ [pKV'])) (RootKV st),
                stackpos := stackpos st + 1,
                bracket_level := bracket_level st + 1\<rparr>))"

text \<open>
  One iteration of the \<^verbatim>\<open>for\<close> loop, at index \<open>i < nlen\<close>: either the loop goes
  on (\<open>Continue j\<close>, where \<open>j\<close> is the value of \<^verbatim>\<open>i\<close> when the body ends, before
  \<^verbatim>\<open>i++\<close>) or the method leaves with \<^verbatim>\<open>return false\<close>.
\<close>

datatype step = Continue nat pstate | Return_false pstate

function skip_space :: "string \<Rightarrow> nat \<Rightarrow> nat" where
  "skip_space string i =
     (if i < length string - 1 \<and> internal_isspace (string ! (i + 1))
      then skip_space string (i + 1) else i)"
  by pat_completeness auto
termination
  by (relation "measure (\<lambda>(string, i). length string - i)") auto

definition loop_body :: "string \<Rightarrow> nat \<Rightarrow> pstate \<Rightarrow> step outcome" where
  "loop_body string i st0 =
     (let c = string ! i;
          st = st0\<lparr>pc := (if i > 0 then string ! (i - 1) else pc st0),
                   nc := (if i < length string - 1 then string ! (i + 1) else nc st0)\<rparr>
      in
      if c = CHR 0x0A then
        (if inquote st
         then Returns (Return_false (ReportError (nline st) (nchar st) MISSING_QUOTE st))
         else bind_outcome (if buf st \<noteq> [] then save_token None st else Returns st)
                (\<lambda>st1. Returns (Continue i
                   (st1\<lparr>incomment := False, inquote := False,
                        nline := nline st1 + 1, nchar := 0\<rparr>))))
      else if c = CHR ''/'' \<and> (pc st = CHR ''/'' \<or> nc st = CHR ''/'') \<and> \<not> inquote st then
        Returns (Continue i (st\<lparr>incomment := True\<rparr>))
      else if incomment st then Returns (Continue i st)
      else if c = CHR 0x22 then
        (if inquote st
         then bind_outcome (save_token (Some True) (st\<lparr>inquote := False\<rparr>))
                (\<lambda>st1. Returns (Continue i st1))
         else Returns (Continue i (st\<lparr>inquote := True\<rparr>)))
      else if \<not> inquote st \<and> c = CHR ''{'' then
        (if parsed_key st then
           (case key (CurrentKey st) of
              None \<Rightarrow> Undefined Null_String
            | Some k \<Rightarrow>
                bind_outcome
                  (enter_scope (KeyValues_named k)
                     (st\<lparr>CurrentKey := (CurrentKey st)\<lparr>key := None\<rparr>\<rparr>))
                  (\<lambda>st1. Returns (Continue i st1)))
         else if buf st \<noteq> [] then
           (if length (buf st) > 511 then Undefined Buffer_Overflow
            else bind_outcome (enter_scope (KeyValues_named (buf st)) (st\<lparr>buf := []\<rparr>))
                   (\<lambda>st1. Returns (Continue i st1)))
         else Returns (Return_false (ReportError (nline st) (nchar st) UNNAMED_SECTION st)))
      else if \<not> inquote st \<and> c = CHR ''}'' then
        (if stackpos st = 0 then Undefined Stack_Underflow
         else Returns (Continue i
                (st\<lparr>stackpos := stackpos st - 1, bracket_level := bracket_level st - 1\<rparr>)))
      else if \<not> internal_isspace c \<or> inquote st then
        (if length (buf st) > 511 then Undefined Buffer_Overflow
         else Returns (Continue i (st\<lparr>buf := buf st @ [c]\<rparr>)))
      else
        bind_outcome
          (if internal_isspace c \<and> \<not> inquote st \<and> buf st \<noteq> []
           then save_token (Some False) (st\<lparr>inquote := False\<rparr>) else Returns st)
          (\<lambda>st1. Returns (Continue (skip_space string i) st1)))"

declare skip_space.simps [simp del]

lemma skip_space_ge: "i \<le> skip_space string i"
proof (induction string i rule: skip_space.induct)
  case (1 string i)
  show ?case
  proof (cases "i < length string - 1 \<and> internal_isspace (string ! (i + 1))")
    case True
    with 1 have "i + 1 \<le> skip_space string (i + 1)" by simp
    with True show ?thesis by (subst skip_space.simps) simp
  next
    case False
    then show ?thesis by (subst skip_space.simps) auto
  qed
qed

lemma bind_outcome_Returns:
  "bind_outcome m f = Returns y \<longleftrightarrow> (\<exists>x. m = Returns x \<and> f x = Returns y)"
  by (cases m) auto

lemma loop_body_advances:
  "loop_body string i st = Returns (Continue j st') \<Longrightarrow> i \<le> j"
  using skip_space_ge [of i string]
  by (simp add: loop_body_def Let_def bind_outcome_Returns
        split: if_splits option.splits) blast+

text \<open>
  The loop from index \<open>i\<close>: it ends when \<open>i\<close> reaches \<^verbatim>\<open>nlen\<close> or leaves the
  method with \<^verbatim>\<open>return false\<close>. \<^verbatim>\<open>i++\<close> on an \<^verbatim>\<open>int\<close> that holds
  \<^verbatim>\<open>INT_MAX\<close> is undefined.
\<close>

datatype loop_exit = Loop_done pstate | Returned_false pstate

function scan :: "string \<Rightarrow> nat \<Rightarrow> pstate \<Rightarrow> loop_exit outcome" where
  "scan string i st =
     (if i < length string then
        (case loop_body string i st of
           Undefined u \<Rightarrow> Undefined u
         | Returns (Return_false st') \<Rightarrow> Returns (Returned_false st')
         | Returns (Continue j st') \<Rightarrow>
             if j \<ge> 2147483647 then Undefined Int_Overflow
             else scan string (j + 1) (st'\<lparr>nchar := nchar st' + 1\<rparr>))
      else Returns (Loop_done st))"
  by pat_completeness auto
termination
  by (relation "measure (\<lambda>(string, i, st). length string - i)")
     (auto dest: loop_body_advances)

declare scan.simps [simp del]

text \<open>The checks after the loop, and \<^verbatim>\<open>return good\<close>.\<close>

definition after_loop :: "pstate \<Rightarrow> bool \<times> pstate" where
  "after_loop st =
     (let st1 = (if inquote st then ReportError (- 1) 0 MISSING_QUOTE st else st);
          st2 = (if bracket_level st1 > 0
                 then ReportError (- 1) 0 UNTERMINATED_SECTION st1 else st1)
      in (good (RootKV st2), st2))"

text \<open>
  \<^verbatim>\<open>ParseString(string, escape, len)\<close> on the object \<open>this\<close>. \<open>string\<close> is the
  \<^verbatim>\<open>nlen\<close> characters the loop ranges over (up to the NUL when \<^verbatim>\<open>len < 0\<close>, the
  first \<^verbatim>\<open>len\<close> otherwise); \<^verbatim>\<open>escape\<close> is never read. Three locals are read
  before anything is assigned to them: \<^verbatim>\<open>CurrentKey.quoted\<close> (the constructor of
  \<^verbatim>\<open>Key\<close> sets only \<^verbatim>\<open>cached\<close>), \<^verbatim>\<open>pc\<close> and \<^verbatim>\<open>nc\<close>. Their first
  contents are the parameter \<open>u\<close>. The result is the returned flag, the object and the
  reported errors.
\<close>

record indeterminate =
  quoted0 :: bool
  pc0 :: char
  nc0 :: char

definition initial_state :: "indeterminate \<Rightarrow> KeyValues \<Rightarrow> pstate" where
  "initial_state u this =
     \<lparr>RootKV = good_update True this, errors = [], nline = 0, nchar = 0,
      bracket_level = 0, inquote = False, incomment = False, parsed_key = False,
      buf = [],
      CurrentKey = \<lparr>key = None, kvalue = None, cached = Cached_NONE, kquoted = quoted0 u\<rparr>,
      stackpos = 0, pc = pc0 u, nc = nc0 u\<rparr>"

definition ParseString ::
    "indeterminate \<Rightarrow> KeyValues \<Rightarrow> string \<Rightarrow>
     (bool \<times> KeyValues \<times> (int \<times> int \<times> EError) list) outcome" where
  "ParseString u this string =
     bind_outcome (scan string 0 (initial_state u this))
       (\<lambda>e. case e of
          Returned_false st \<Rightarrow> Returns (False, RootKV st, errors st)
        | Loop_done st \<Rightarrow>
            (case after_loop st of (ok, st') \<Rightarrow> Returns (ok, RootKV st', errors st')))"





section \<open>The serializer \<^verbatim>\<open>KeyValues::DumpToStream\<close>\<close>

text \<open>
  The result is the text written to the stream. The indentation buffer is
  \<^verbatim>\<open>char buf[MAX_INDENT_LEVEL + 1]\<close>, 129 characters: a named section writes
  \<^verbatim>\<open>buf[indent + 1]\<close>, which needs \<^verbatim>\<open>indent \<le> 127\<close>. The format
  \<^verbatim>\<open>%s\<close> needs a string that is not null.
\<close>

definition tabs :: "nat \<Rightarrow> string" where
  "tabs n = replicate n (CHR 0x09)"

definition dump_key :: "string \<Rightarrow> Key \<Rightarrow> string outcome" where
  "dump_key b k =
     (case key k of
        None \<Rightarrow> Undefined Null_String
      | Some kk \<Rightarrow>
         (case kvalue k of
            None \<Rightarrow> Undefined Null_String
          | Some v \<Rightarrow>
              Returns (if kquoted k
                 then b @ [CHR 0x22] @ kk @ [CHR 0x22] @ '' '' @ [CHR 0x22] @ v @ [CHR 0x22, CHR 0x0A]
                 else b @ kk @ '' '' @ [CHR 0x22] @ v @ [CHR 0x22, CHR 0x0A])))"

fun concat_outcome :: "string outcome list \<Rightarrow> string outcome" where
  "concat_outcome [] = Returns []"
| "concat_outcome (x # xs) =
     bind_outcome x (\<lambda>a. bind_outcome (concat_outcome xs) (\<lambda>b. Returns (a @ b)))"

fun DumpToStreamInternal :: "KeyValues \<Rightarrow> nat \<Rightarrow> string outcome" where
  "DumpToStreamInternal (KeyValues nm g q ks cs) indent =
     (if indent > 128 then Returns []
      else
        (case nm of
           None \<Rightarrow>
             bind_outcome (concat_outcome (map (dump_key (tabs indent)) ks))
               (\<lambda>a. bind_outcome
                  (concat_outcome (map (\<lambda>c. DumpToStreamInternal c (indent + 1)) cs))
                  (\<lambda>b. Returns (a @ b)))
         | Some n \<Rightarrow>
             if indent + 1 > 128 then Undefined Indent_Overflow
             else
               bind_outcome (concat_outcome (map (dump_key (tabs (indent + 1))) ks))
                 (\<lambda>a. bind_outcome
                    (concat_outcome (map (\<lambda>c. DumpToStreamInternal c (indent + 1)) cs))
                    (\<lambda>b. Returns
                       ((if q then tabs indent @ [CHR 0x22] @ n @ [CHR 0x22, CHR 0x0A]
                         else tabs indent @ n @ [CHR 0x0A])
                        @ tabs indent @ [CHR ''{'', CHR 0x0A]
                        @ a @ b @ tabs indent @ [CHR ''}'', CHR 0x0A])))))"

definition DumpToStream :: "KeyValues \<Rightarrow> string outcome" where
  "DumpToStream this = DumpToStreamInternal this 0"
section \<open>Auxiliary definitions for the statements and proofs\<close>

text \<open>Concrete inputs for the examples.\<close>

definition two_entries :: KeyValues where
  "two_entries = KeyValues None True False
     [\<lparr>key = Some ''a'', kvalue = Some ''k'', cached = Cached_NONE, kquoted = False\<rparr>,
      \<lparr>key = Some ''k'', kvalue = Some ''5'', cached = Cached_NONE, kquoted = False\<rparr>] []"

definition some_garbage :: indeterminate where
  "some_garbage = \<lparr>quoted0 = False, pc0 = CHR ''x'', nc0 = CHR ''x''\<rparr>"

text \<open>
  The \<^verbatim>\<open>if\<close> chain of the loop body on its own, after \<^verbatim>\<open>c\<close>, \<^verbatim>\<open>pc\<close> and
  \<^verbatim>\<open>nc\<close> are read (see \<open>loop_body_handle\<close>).
\<close>

definition handle_char :: "string \<Rightarrow> nat \<Rightarrow> char \<Rightarrow> pstate \<Rightarrow> step outcome" where
  "handle_char string i c st =
     (if c = CHR 0x0A then
        (if inquote st
         then Returns (Return_false (ReportError (nline st) (nchar st) MISSING_QUOTE st))
         else bind_outcome (if buf st \<noteq> [] then save_token None st else Returns st)
                (\<lambda>st1. Returns (Continue i
                   (st1\<lparr>incomment := False, inquote := False,
                        nline := nline st1 + 1, nchar := 0\<rparr>))))
      else if c = CHR ''/'' \<and> (pc st = CHR ''/'' \<or> nc st = CHR ''/'') \<and> \<not> inquote st then
        Returns (Continue i (st\<lparr>incomment := True\<rparr>))
      else if incomment st then Returns (Continue i st)
      else if c = CHR 0x22 then
        (if inquote st
         then bind_outcome (save_token (Some True) (st\<lparr>inquote := False\<rparr>))
                (\<lambda>st1. Returns (Continue i st1))
         else Returns (Continue i (st\<lparr>inquote := True\<rparr>)))
      else if \<not> inquote st \<and> c = CHR ''{'' then
        (if parsed_key st then
           (case key (CurrentKey st) of
              None \<Rightarrow> Undefined Null_String
            | Some k \<Rightarrow>
                bind_outcome
                  (enter_scope (KeyValues_named k)
                     (st\<lparr>CurrentKey := (CurrentKey st)\<lparr>key := None\<rparr>\<rparr>))
                  (\<lambda>st1. Returns (Continue i st1)))
         else if buf st \<noteq> [] then
           (if length (buf st) > 511 then Undefined Buffer_Overflow
            else bind_outcome (enter_scope (KeyValues_named (buf st)) (st\<lparr>buf := []\<rparr>))
                   (\<lambda>st1. Returns (Continue i st1)))
         else Returns (Return_false (ReportError (nline st) (nchar st) UNNAMED_SECTION st)))
      else if \<not> inquote st \<and> c = CHR ''}'' then
        (if stackpos st = 0 then Undefined Stack_Underflow
         else Returns (Continue i
                (st\<lparr>stackpos := stackpos st - 1, bracket_level := bracket_level st - 1\<rparr>)))
      else if \<not> internal_isspace c \<or> inquote st then
        (if length (buf st) > 511 then Undefined Buffer_Overflow
         else Returns (Continue i (st\<lparr>buf := buf st @ [c]\<rparr>)))
      else
        bind_outcome
          (if internal_isspace c \<and> \<not> inquote st \<and> buf st \<noteq> []
           then save_token (Some False) (st\<lparr>inquote := False\<rparr>) else Returns st)
          (\<lambda>st1. Returns (Continue (skip_space string i) st1)))"

text \<open>
  What holds of the locals while the loop runs: nothing has been reported, the flag is
  still set, and \<^verbatim>\<open>bracket_level\<close> counts the open sections.
\<close>

definition scanning :: "pstate \<Rightarrow> bool" where
  "scanning st = (errors st = [] \<and> good (RootKV st) \<and> bracket_level st = int (stackpos st))"

definition small_document :: KeyValues where
  "small_document = KeyValues None True False
     [\<lparr>key = Some ''/a/b'', kvalue = Some ''c//d'', cached = Cached_NONE, kquoted = False\<rparr>]
     [KeyValues (Some ''s/t'') True False
        [\<lparr>key = Some ''d e'', kvalue = Some [], cached = Cached_NONE, kquoted = True\<rparr>]
        [KeyValues (Some ''t u'') True True [] []]]"

definition small_document_text :: string where
  "small_document_text =
     ''/a/b '' @ [CHR 0x22] @ ''c//d'' @ [CHR 0x22, CHR 0x0A] @
     [CHR 0x09] @ ''s/t'' @ [CHR 0x0A, CHR 0x09] @ ''{'' @ [CHR 0x0A] @
     [CHR 0x09, CHR 0x09, CHR 0x22] @ ''d e'' @ [CHR 0x22] @ '' '' @
       [CHR 0x22, CHR 0x22, CHR 0x0A] @
     [CHR 0x09, CHR 0x09, CHR 0x22] @ ''t u'' @ [CHR 0x22, CHR 0x0A] @
     [CHR 0x09, CHR 0x09] @ ''{'' @ [CHR 0x0A] @
     [CHR 0x09, CHR 0x09] @ ''}'' @ [CHR 0x0A] @
     [CHR 0x09] @ ''}'' @ [CHR 0x0A]"

text \<open>
  The document that \<^verbatim>\<open>SetString("a", "b\nc")\<close> leaves of the document parsed from
  \<^verbatim>\<open>a x\<close>.
\<close>

definition newline_value :: KeyValues where
  "newline_value = SetString
     (KeyValues None True False
        [\<lparr>key = Some ''a'', kvalue = Some ''x'', cached = Cached_NONE, kquoted = False\<rparr>] [])
     ''a'' (''b'' @ [CHR 0x0A] @ ''c'')"

subsection \<open>What the loop has committed\<close>

text \<open>
  Reading through the pointer \<^verbatim>\<open>CurrentKV\<close>: the section reached from the root by
  descending \<open>n\<close> times into the last child, the counterpart of \<open>on_CurrentKV\<close>.
  \<open>stack_ok n\<close> says that these \<open>n\<close> sections exist, which holds of
  \<^verbatim>\<open>stackpos\<close> and the root throughout the loop.
\<close>

fun CurrentKV :: "nat \<Rightarrow> KeyValues \<Rightarrow> KeyValues" where
  "CurrentKV 0 kv = kv"
| "CurrentKV (Suc n) kv =
     (if child_sections kv = [] then kv else CurrentKV n (last (child_sections kv)))"

fun stack_ok :: "nat \<Rightarrow> KeyValues \<Rightarrow> bool" where
  "stack_ok 0 kv = True"
| "stack_ok (Suc n) kv =
     (child_sections kv \<noteq> [] \<and> stack_ok n (last (child_sections kv)))"

text \<open>
  The locals at the head of the loop after \<open>n\<close> iterations, with the index of the
  next character; \<open>None\<close> when the loop has ended or left the method before.
\<close>

fun after_iterations :: "nat \<Rightarrow> string \<Rightarrow> nat \<Rightarrow> pstate \<Rightarrow> (nat \<times> pstate) option" where
  "after_iterations 0 string i st = Some (i, st)"
| "after_iterations (Suc n) string i st =
     (if i < length string then
        (case loop_body string i st of
           Returns (Continue j st') \<Rightarrow>
             if j \<ge> 2147483647 then None
             else after_iterations n string (j + 1) (st'\<lparr>nchar := nchar st' + 1\<rparr>)
         | _ \<Rightarrow> None)
      else None)"

text \<open>
  \<open>extends T T'\<close>: the tree \<open>T'\<close> has everything \<open>T\<close> has, at the same place.
  Both have the same name and \<^verbatim>\<open>quoted\<close> flag, the entries of \<open>T\<close> are the first
  entries of \<open>T'\<close>, and the children of \<open>T\<close> are extended, one by one, by the first
  children of \<open>T'\<close>. The validity flag is left out.
\<close>

fun extends :: "KeyValues \<Rightarrow> KeyValues \<Rightarrow> bool" where
  "extends (KeyValues n g q ks cs) (KeyValues n' g' q' ks' cs') =
     (n = n' \<and> q = q' \<and> take (length ks) ks' = ks \<and> length cs \<le> length cs' \<and>
      list_all2 extends cs (take (length cs) cs'))"

text \<open>
  What one iteration, from the locals \<open>s\<close> to the locals \<open>s'\<close>, has added to the
  section that was current in \<open>s\<close>: an entry, made of the pending key of \<open>s\<close> and of
  the token in the buffer of \<open>s\<close> as its value; or a new section without entries and
  children, named by the pending key of \<open>s\<close>, or by the buffer when no key is
  pending, which is the current section of \<open>s'\<close>. \<open>commits\<close> says when: the entry
  when a pending key is no longer pending and the depth is the same, the section when
  the depth has grown by one.
\<close>

definition entry_committed :: "pstate \<Rightarrow> pstate \<Rightarrow> bool" where
  "entry_committed s s' =
     (keys (CurrentKV (stackpos s) (RootKV s')) =
        keys (CurrentKV (stackpos s) (RootKV s)) @
          [(CurrentKey s')\<lparr>key := key (CurrentKey s), kvalue := Some (kvstrdup (buf s))\<rparr>])"

definition section_committed :: "pstate \<Rightarrow> pstate \<Rightarrow> bool" where
  "section_committed s s' =
     (child_sections (CurrentKV (stackpos s) (RootKV s')) =
        child_sections (CurrentKV (stackpos s) (RootKV s)) @
          [CurrentKV (stackpos s') (RootKV s')] \<and>
      name (CurrentKV (stackpos s') (RootKV s')) =
        (if parsed_key s then map_option kvstrdup (key (CurrentKey s))
         else Some (kvstrdup (buf s))) \<and>
      keys (CurrentKV (stackpos s') (RootKV s')) = [] \<and>
      child_sections (CurrentKV (stackpos s') (RootKV s')) = [])"

definition commits :: "pstate \<Rightarrow> pstate \<Rightarrow> bool" where
  "commits s s' =
     (stack_ok (stackpos s') (RootKV s') \<and> extends (RootKV s) (RootKV s') \<and>
      (parsed_key s \<and> \<not> parsed_key s' \<and> stackpos s' = stackpos s \<longrightarrow>
         entry_committed s s') \<and>
      (stackpos s' = Suc (stackpos s) \<longrightarrow> section_committed s s'))"

subsection \<open>The documents of the round trip\<close>

text \<open>
  A token written without quotes survives a dump and a parse when it is not empty, has
  no white space, quote, brace or NUL, and has no two slashes side by side (a slash
  starts a comment only next to another slash); a token written in quotes when it has
  no quote, newline or NUL. Either fits the token buffer when it has at most 511
  characters. An entry is well formed when its key is such a token (by its
  \<^verbatim>\<open>quoted\<close> flag) and its value, always written in quotes, is one; a section when it
  has a name that is such a token and its entries and children are well formed; a
  document when its root has no name, its entries and sections are well formed and the
  sections are nested at most 127 deep, the deepest indentation the serializer can write.
\<close>

definition plain_char :: "char \<Rightarrow> bool" where
  "plain_char c =
     (\<not> internal_isspace c \<and> c \<noteq> CHR 0x22 \<and> c \<noteq> CHR ''{'' \<and> c \<noteq> CHR ''}'' \<and>
      c \<noteq> CHR 0x00)"

fun single_slashes :: "string \<Rightarrow> bool" where
  "single_slashes (c # d # cs) =
     (\<not> (c = CHR ''/'' \<and> d = CHR ''/'') \<and> single_slashes (d # cs))"
| "single_slashes cs = True"

definition bare_token :: "string \<Rightarrow> bool" where
  "bare_token t =
     (t \<noteq> [] \<and> length t \<le> 511 \<and> list_all plain_char t \<and> single_slashes t)"

definition quoted_token :: "string \<Rightarrow> bool" where
  "quoted_token t =
     (length t \<le> 511 \<and> list_all (\<lambda>c. c \<noteq> CHR 0x22 \<and> c \<noteq> CHR 0x0A \<and> c \<noteq> CHR 0x00) t)"

definition token_ok :: "bool \<Rightarrow> string \<Rightarrow> bool" where
  "token_ok q t = (if q then quoted_token t else bare_token t)"

definition key_ok :: "Key \<Rightarrow> bool" where
  "key_ok k =
     (case key k of
        None \<Rightarrow> False
      | Some kk \<Rightarrow>
         (case kvalue k of None \<Rightarrow> False | Some v \<Rightarrow> token_ok (kquoted k) kk \<and> quoted_token v))"

fun section_ok :: "KeyValues \<Rightarrow> bool" where
  "section_ok (KeyValues nm g q ks cs) =
     ((case nm of None \<Rightarrow> False | Some n \<Rightarrow> token_ok q n) \<and>
      list_all key_ok ks \<and> list_all section_ok cs)"

text \<open>
  Structural equality: the same section names, the same entries (key and value) in the
  same order, the same children in the same order. Flags and caches are left out.
\<close>

datatype skeleton =
  Skeleton "string option" "(string option \<times> string option) list" "skeleton list"

fun skeleton_of :: "KeyValues \<Rightarrow> skeleton" where
  "skeleton_of (KeyValues nm g q ks cs) =
     Skeleton nm (map (\<lambda>k. (key k, kvalue k)) ks) (map skeleton_of cs)"

definition same_structure :: "KeyValues \<Rightarrow> KeyValues \<Rightarrow> bool" where
  "same_structure T T' = (skeleton_of T = skeleton_of T')"

fun depth_of :: "skeleton \<Rightarrow> nat" where
  "depth_of (Skeleton nm ks cs) = foldr (\<lambda>c m. max (Suc (depth_of c)) m) cs 0"

definition nesting :: "KeyValues \<Rightarrow> nat" where
  "nesting T = depth_of (skeleton_of T)"

definition document_ok :: "KeyValues \<Rightarrow> bool" where
  "document_ok T =
     (name T = None \<and> list_all key_ok (keys T) \<and> list_all section_ok (child_sections T) \<and>
      nesting T \<le> 127)"

text \<open>
  At the first character of a text the scanner compares \<^verbatim>\<open>pc\<close>, which nothing
  has been assigned to, with a slash; it does so only when that first character is a
  slash. The text starts no comment there when it does not begin with a slash, or
  \<^verbatim>\<open>pc\<close> happens to hold something else.
\<close>

definition no_leading_comment :: "indeterminate \<Rightarrow> string \<Rightarrow> bool" where
  "no_leading_comment u text =
     (case text of [] \<Rightarrow> True | c # cs \<Rightarrow> \<not> (c = CHR ''/'' \<and> pc0 u = CHR ''/''))"

subsection \<open>The scanner without positions and lookahead\<close>

text \<open>
  A proof device for the round trip. \<open>astep\<close> is the loop body on one character, for
  the inputs on which no comment starts: it needs neither \<^verbatim>\<open>pc\<close>, \<^verbatim>\<open>nc\<close>
  nor the index, and it is \<open>None\<close> where the loop body would leave the loop or meet
  undefined behaviour. \<open>ascan\<close> folds it over a text. \<open>norm\<close> forgets the position
  counters and the two lookahead characters, \<open>quiet\<close> and \<open>boundary\<close> describe the
  locals between two tokens, and \<open>scans_section\<close> says that the dump of a section,
  scanned at such a point, appends a section of the same structure to the section on
  top of the stack.

  That no comment starts is a property of the text alone: \<open>no_comment q p text\<close> follows
  the quotes of the text (\<open>q\<close>: inside quotes, \<open>p\<close>: the character before) and says
  that outside quotes no slash stands next to a slash. \<open>clean\<close> is what holds of the
  lines the serializer writes: no comment, quotes closed, a newline at the end.
\<close>

definition norm :: "pstate \<Rightarrow> pstate" where
  "norm st = st\<lparr>nline := 0, nchar := 0, pc := CHR 0x00, nc := CHR 0x00\<rparr>"

fun ok_of :: "'a outcome \<Rightarrow> 'a option" where
  "ok_of (Undefined u) = None"
| "ok_of (Returns x) = Some x"

definition astep :: "char \<Rightarrow> pstate \<Rightarrow> pstate option" where
  "astep c st =
     (if incomment st then None
      else if c = CHR 0x0A then
        (if inquote st then None
         else if buf st \<noteq> [] then ok_of (save_token None st) else Some st)
      else if c = CHR 0x22 then
        (if inquote st then ok_of (save_token (Some True) (st\<lparr>inquote := False\<rparr>))
         else Some (st\<lparr>inquote := True\<rparr>))
      else if \<not> inquote st \<and> c = CHR ''{'' then
        (if parsed_key st then
           (case key (CurrentKey st) of
              None \<Rightarrow> None
            | Some k \<Rightarrow>
                ok_of (enter_scope (KeyValues_named k)
                  (st\<lparr>CurrentKey := (CurrentKey st)\<lparr>key := None\<rparr>\<rparr>)))
         else if buf st \<noteq> [] \<and> length (buf st) \<le> 511
           then ok_of (enter_scope (KeyValues_named (buf st)) (st\<lparr>buf := []\<rparr>))
         else None)
      else if \<not> inquote st \<and> c = CHR ''}'' then
        (if stackpos st = 0 then None
         else Some (st\<lparr>stackpos := stackpos st - 1, bracket_level := bracket_level st - 1\<rparr>))
      else if \<not> internal_isspace c \<or> inquote st then
        (if length (buf st) > 511 then None else Some (st\<lparr>buf := buf st @ [c]\<rparr>))
      else if buf st \<noteq> [] then ok_of (save_token (Some False) st) else Some st)"

fun ascan :: "string \<Rightarrow> pstate \<Rightarrow> pstate option" where
  "ascan [] st = Some st"
| "ascan (c # cs) st = (case astep c st of None \<Rightarrow> None | Some st' \<Rightarrow> ascan cs st')"

definition quote_after :: "bool \<Rightarrow> char \<Rightarrow> bool" where
  "quote_after q c = (if c = CHR 0x22 then \<not> q else if c = CHR 0x0A then False else q)"

fun no_comment :: "bool \<Rightarrow> char \<Rightarrow> string \<Rightarrow> bool" where
  "no_comment q p [] = True"
| "no_comment q p (c # cs) =
     ((c = CHR ''/'' \<and> p = CHR ''/'' \<longrightarrow> q) \<and> no_comment (quote_after q c) c cs)"

definition clean :: "string \<Rightarrow> bool" where
  "clean text =
     (no_comment False (CHR 0x0A) text \<and> foldl quote_after False text = False \<and>
      (text \<noteq> [] \<longrightarrow> last text = CHR 0x0A))"

definition quiet :: "pstate \<Rightarrow> bool" where
  "quiet st = (\<not> inquote st \<and> \<not> incomment st \<and> buf st = [])"

definition with_pos :: "int \<Rightarrow> int \<Rightarrow> char \<Rightarrow> char \<Rightarrow> pstate \<Rightarrow> pstate" where
  "with_pos a b c d st = st\<lparr>nline := a, nchar := b, pc := c, nc := d\<rparr>"

definition boundary :: "nat \<Rightarrow> KeyValues \<Rightarrow> pstate \<Rightarrow> bool" where
  "boundary d R st =
     (quiet st \<and> \<not> parsed_key st \<and> stackpos st = d \<and> bracket_level st = int d \<and>
      RootKV st = R \<and> errors st = [])"

definition scans_section :: "KeyValues \<Rightarrow> bool" where
  "scans_section C =
     (\<forall>indent d R st txt rest.
        DumpToStreamInternal C indent = Returns txt \<longrightarrow> indent \<le> 127 \<longrightarrow> d \<le> indent \<longrightarrow>
        boundary d R st \<longrightarrow>
        (\<exists>st' C'. ascan (txt @ rest) st = ascan rest st' \<and>
           boundary d (on_CurrentKV d (child_sections_update (\<lambda>cs. cs @ [C'])) R) st' \<and>
           skeleton_of C' = skeleton_of C \<and> section_ok C'))"

section \<open>Lemmas\<close>

subsection \<open>Setters and removal on the list of entries\<close>

lemma keys_update_same: "f (keys this) = keys this \<Longrightarrow> keys_update f this = this"
  by (cases this) (simp add: keys_update_def)

lemma SetBool_loop_none: "\<forall>e\<in>set es. key e \<noteq> Some k \<Longrightarrow> SetBool_loop es k v = es"
  by (induction es) auto

lemma SetInt_loop_none: "\<forall>e\<in>set es. key e \<noteq> Some k \<Longrightarrow> SetInt_loop es k v = es"
  by (induction es) auto

lemma SetFloat_loop_none: "\<forall>e\<in>set es. key e \<noteq> Some k \<Longrightarrow> SetFloat_loop es k v = es"
  by (induction es) auto

lemma SetString_loop_none: "\<forall>e\<in>set es. key e \<noteq> Some k \<Longrightarrow> SetString_loop es k v = es"
  by (induction es) auto

lemma SetBool_loop_first:
  "\<forall>x\<in>set xs. key x \<noteq> Some k \<Longrightarrow> key e = Some k \<Longrightarrow>
   SetBool_loop (xs @ e # ys) k v = xs @ e\<lparr>cached := Cached_BOOL v\<rparr> # ys"
  by (induction xs) auto

lemma SetInt_loop_first:
  "\<forall>x\<in>set xs. key x \<noteq> Some k \<Longrightarrow> key e = Some k \<Longrightarrow>
   SetInt_loop (xs @ e # ys) k v = xs @ e\<lparr>cached := Cached_INT (scast v)\<rparr> # ys"
  by (induction xs) auto

lemma SetFloat_loop_first:
  "\<forall>x\<in>set xs. key x \<noteq> Some k \<Longrightarrow> key e = Some k \<Longrightarrow>
   SetFloat_loop (xs @ e # ys) k v = xs @ e\<lparr>cached := Cached_FLOAT v\<rparr> # ys"
  by (induction xs) auto

lemma SetString_loop_first:
  "\<forall>x\<in>set xs. key x \<noteq> Some k \<Longrightarrow> key e = Some k \<Longrightarrow>
   SetString_loop (xs @ e # ys) k v = xs @ e\<lparr>cached := Cached_NONE, kvalue := Some v\<rparr> # ys"
  by (induction xs) auto

lemma RemoveKey_loop_none:
  "\<forall>e\<in>set es. kvalue e \<noteq> Some k \<Longrightarrow> RemoveKey_loop es k = es"
  by (induction es) auto

lemma RemoveKey_loop_first:
  "\<forall>x\<in>set xs. kvalue x \<noteq> Some k \<Longrightarrow> kvalue e = Some k \<Longrightarrow>
   RemoveKey_loop (xs @ e # ys) k = xs @ ys"
  by (induction xs) auto

subsection \<open>Evaluating the scanner on a concrete input\<close>

lemmas parse_eval = ParseString_def scan.simps loop_body_def initial_state_def
  KeyValues_new_def good_update_def internal_isspace_def save_token_def enter_scope_def
  kvstrdup_def KeyValues_named_def keys_update_def child_sections_update_def quoted_update_def
  after_loop_def ReportError_def skip_space.simps Let_def

subsection \<open>The loop body and the scanning invariant\<close>

lemma loop_body_handle:
  "loop_body string i st0 =
   handle_char string i (string ! i)
     (st0\<lparr>pc := (if i > 0 then string ! (i - 1) else pc st0),
          nc := (if i < length string - 1 then string ! (i + 1) else nc st0)\<rparr>)"
  unfolding loop_body_def handle_char_def Let_def ..

lemma good_on_CurrentKV:
  "(\<And>kv. good (f kv) = good kv) \<Longrightarrow> good (on_CurrentKV n f kv) = good kv"
  by (cases n) (simp_all add: child_sections_update_def)

lemma good_keys_update [simp]: "good (keys_update f kv) = good kv"
  by (simp add: keys_update_def)

lemma good_child_sections_update [simp]: "good (child_sections_update f kv) = good kv"
  by (simp add: child_sections_update_def)

lemma save_token_scanning:
  "save_token q st = Returns st' \<Longrightarrow> scanning st \<Longrightarrow> scanning st'"
  by (auto simp: save_token_def Let_def scanning_def good_on_CurrentKV split: if_splits)

lemma enter_scope_scanning:
  "enter_scope k st = Returns st' \<Longrightarrow> scanning st \<Longrightarrow> scanning st'"
  by (auto simp: enter_scope_def Let_def scanning_def good_on_CurrentKV split: if_splits)

lemma scanning_upd [simp]:
  "scanning (st\<lparr>pc := a\<rparr>) = scanning st"
  "scanning (st\<lparr>nc := b\<rparr>) = scanning st"
  "scanning (st\<lparr>nchar := c\<rparr>) = scanning st"
  "scanning (st\<lparr>nline := d\<rparr>) = scanning st"
  "scanning (st\<lparr>inquote := e\<rparr>) = scanning st"
  "scanning (st\<lparr>incomment := f\<rparr>) = scanning st"
  "scanning (st\<lparr>buf := g\<rparr>) = scanning st"
  "scanning (st\<lparr>CurrentKey := h\<rparr>) = scanning st"
  by (simp_all add: scanning_def)

lemma handle_char_scanning:
  "handle_char s i c st = Returns (Continue j st') \<Longrightarrow> scanning st \<Longrightarrow> scanning st'"
  by (simp add: handle_char_def bind_outcome_Returns split: if_splits option.splits)
     (auto dest: save_token_scanning enter_scope_scanning simp: scanning_def)

lemma loop_body_scanning:
  "loop_body s i st = Returns (Continue j st') \<Longrightarrow> scanning st \<Longrightarrow> scanning st'"
  unfolding loop_body_handle by (erule handle_char_scanning) simp

lemma handle_char_Return_false:
  "handle_char s i c st = Returns (Return_false st') \<longleftrightarrow>
     (c = CHR 0x0A \<and> inquote st \<and> st' = ReportError (nline st) (nchar st) MISSING_QUOTE st) \<or>
     (c = CHR ''{'' \<and> \<not> inquote st \<and> \<not> incomment st \<and> \<not> parsed_key st \<and> buf st = [] \<and>
      st' = ReportError (nline st) (nchar st) UNNAMED_SECTION st)"
  by (simp add: handle_char_def bind_outcome_Returns split: if_splits option.splits) blast

lemma scan_scanning:
  "scan s i st = Returns e \<Longrightarrow> scanning st \<Longrightarrow>
   (case e of
      Loop_done st' \<Rightarrow> scanning st'
    | Returned_false st' \<Rightarrow>
        \<not> good (RootKV st') \<and>
        (\<exists>l c k. errors st' = [(l, c, k)] \<and> (k = MISSING_QUOTE \<or> k = UNNAMED_SECTION)))"
proof (induction s i st rule: scan.induct)
  case (1 string i st)
  show ?case
  proof (cases "i < length string")
    case False
    with "1.prems" show ?thesis by (auto simp: scan.simps)
  next
    case True
    show ?thesis
    proof (cases "loop_body string i st")
      case (Undefined u)
      with True "1.prems" show ?thesis by (simp add: scan.simps)
    next
      case (Returns r)
      show ?thesis
      proof (cases r)
        case (Return_false st')
        with Returns True "1.prems"(1) have e: "e = Returned_false st'"
          by (simp add: scan.simps)
        from Returns Return_false have "handle_char string i (string ! i)
            (st\<lparr>pc := if 0 < i then string ! (i - 1) else pc st,
                  nc := if i < length string - 1 then string ! (i + 1) else nc st\<rparr>)
            = Returns (Return_false st')"
          by (simp add: loop_body_handle)
        with "1.prems"(2) show ?thesis
          unfolding e handle_char_Return_false
          by (auto simp: ReportError_def scanning_def good_update_def)
      next
        case (Continue j st')
        with Returns True "1.prems"(1) have lt: "\<not> 2147483647 \<le> j"
          and sc: "scan string (j + 1) (st'\<lparr>nchar := nchar st' + 1\<rparr>) = Returns e"
          by (auto simp: scan.simps split: if_splits)
        from loop_body_scanning Returns Continue "1.prems"(2)
        have "scanning (st'\<lparr>nchar := nchar st' + 1\<rparr>)" by simp
        from "1.IH" [OF True Returns Continue lt sc this] show ?thesis .
      qed
    qed
  qed
qed

lemma initial_scanning: "scanning (initial_state u this)"
  by (simp add: scanning_def initial_state_def good_update_def)

subsection \<open>What the loop commits stays in the tree\<close>

lemma extends_refl: "extends T T"
  by (induction T) (simp add: list_all2_same)

lemma extends_trans: "extends A B \<Longrightarrow> extends B C \<Longrightarrow> extends A C"
proof (induction A arbitrary: B C)
  case (KeyValues n g q ks cs)
  obtain n' g' q' ks' cs' where B: "B = KeyValues n' g' q' ks' cs'" by (cases B)
  obtain n'' g'' q'' ks'' cs'' where C: "C = KeyValues n'' g'' q'' ks'' cs''" by (cases C)
  from KeyValues.prems have ab: "n = n'" "q = q'" "take (length ks) ks' = ks"
    "length cs \<le> length cs'" "list_all2 extends cs (take (length cs) cs')"
    and bc: "n' = n''" "q' = q''" "take (length ks') ks'' = ks'"
    "length cs' \<le> length cs''" "list_all2 extends cs' (take (length cs') cs'')"
    by (simp_all add: B C)
  from ab(3) obtain r where r: "ks' = ks @ r" by (metis append_take_drop_id)
  from bc(3) obtain r' where r': "ks'' = ks' @ r'" by (metis append_take_drop_id)
  have k: "take (length ks) ks'' = ks" by (simp add: r r')
  have "list_all2 extends cs (take (length cs) cs'')"
  proof (rule list_all2_all_nthI)
    show "length cs = length (take (length cs) cs'')" using ab(4) bc(4) by simp
  next
    fix i assume i: "i < length cs"
    with ab(5) have 1: "extends (cs ! i) (cs' ! i)"
      by (auto simp: list_all2_conv_all_nth)
    from i ab(4) bc(5) have 2: "extends (cs' ! i) (cs'' ! i)"
      by (auto simp: list_all2_conv_all_nth)
    from i have "cs ! i \<in> set cs" by simp
    from KeyValues.IH [OF this 1 2] i show "extends (cs ! i) (take (length cs) cs'' ! i)"
      by simp
  qed
  with ab bc k show ?case by (simp add: C)
qed

lemma extends_good_update: "extends A (good_update b B) = extends A B"
  by (cases A; cases B) (simp add: good_update_def)

lemma extends_keys_update: "extends kv (keys_update (\<lambda>ks. ks @ [e]) kv)"
  by (cases kv) (simp add: keys_update_def list_all2_same extends_refl)

lemma extends_child_sections_update:
  "extends kv (child_sections_update (\<lambda>cs. cs @ [c]) kv)"
  by (cases kv) (simp add: child_sections_update_def list_all2_same extends_refl)

lemma extends_on_CurrentKV:
  "(\<And>x. extends x (f x)) \<Longrightarrow> extends kv (on_CurrentKV d f kv)"
proof (induction d arbitrary: kv)
  case 0
  then show ?case by simp
next
  case (Suc d)
  obtain n g q ks cs where kv: "kv = KeyValues n g q ks cs" by (cases kv)
  show ?case
  proof (cases "cs = []")
    case True
    then show ?thesis by (simp add: kv extends_refl)
  next
    case False
    then have cs: "cs = butlast cs @ [last cs]" by simp
    have "list_all2 extends (butlast cs @ [last cs])
            (butlast cs @ [on_CurrentKV d f (last cs)])"
      using Suc.IH [OF Suc.prems, of "last cs"]
      by (simp add: list_all2_appendI list_all2_same extends_refl)
    with cs have "list_all2 extends cs (butlast cs @ [on_CurrentKV d f (last cs)])" by simp
    moreover have "take (length cs) (butlast cs @ [on_CurrentKV d f (last cs)])
        = butlast cs @ [on_CurrentKV d f (last cs)]"
      using False by (intro take_all) simp
    ultimately show ?thesis using False
      by (simp add: kv child_sections_update_def del: take_append)
  qed
qed

lemma stack_ok_on_CurrentKV: "stack_ok d kv \<Longrightarrow> stack_ok d (on_CurrentKV d f kv)"
proof (induction d arbitrary: kv)
  case 0
  show ?case by simp
next
  case (Suc d)
  then show ?case by (cases kv) (simp add: child_sections_update_def)
qed

lemma CurrentKV_on_CurrentKV:
  "stack_ok d kv \<Longrightarrow> CurrentKV d (on_CurrentKV d f kv) = f (CurrentKV d kv)"
proof (induction d arbitrary: kv)
  case 0
  show ?case by simp
next
  case (Suc d)
  then show ?case by (cases kv) (simp add: child_sections_update_def)
qed

lemma stack_ok_Suc:
  "stack_ok (Suc d) kv \<longleftrightarrow> stack_ok d kv \<and> child_sections (CurrentKV d kv) \<noteq> []"
proof (induction d arbitrary: kv)
  case 0
  show ?case by simp
next
  case (Suc d)
  have "stack_ok (Suc (Suc d)) kv \<longleftrightarrow>
      child_sections kv \<noteq> [] \<and> stack_ok (Suc d) (last (child_sections kv))" by simp
  also have "\<dots> \<longleftrightarrow> child_sections kv \<noteq> [] \<and> stack_ok d (last (child_sections kv)) \<and>
      child_sections (CurrentKV d (last (child_sections kv))) \<noteq> []"
    by (simp only: Suc.IH)
  also have "\<dots> \<longleftrightarrow> stack_ok (Suc d) kv \<and> child_sections (CurrentKV (Suc d) kv) \<noteq> []"
    by auto
  finally show ?case .
qed

lemma CurrentKV_Suc:
  "stack_ok (Suc d) kv \<Longrightarrow> CurrentKV (Suc d) kv = last (child_sections (CurrentKV d kv))"
proof (induction d arbitrary: kv)
  case 0
  then show ?case by simp
next
  case (Suc d)
  from Suc.prems have ne: "child_sections kv \<noteq> []"
    and ok: "stack_ok (Suc d) (last (child_sections kv))" by simp_all
  have "CurrentKV (Suc (Suc d)) kv = CurrentKV (Suc d) (last (child_sections kv))"
    using ne by simp
  also have "\<dots> = last (child_sections (CurrentKV d (last (child_sections kv))))"
    by (rule Suc.IH [OF ok])
  also have "\<dots> = last (child_sections (CurrentKV (Suc d) kv))"
    using ne by simp
  finally show ?case .
qed

lemma commits_upd [simp]:
  "commits (s\<lparr>pc := a\<rparr>) s' = commits s s'"
  "commits (s\<lparr>nc := b\<rparr>) s' = commits s s'"
  "commits (s\<lparr>inquote := e\<rparr>) s' = commits s s'"
  "commits s (s'\<lparr>nchar := c\<rparr>) = commits s s'"
  "commits s (s'\<lparr>nline := d\<rparr>) = commits s s'"
  "commits s (s'\<lparr>inquote := e\<rparr>) = commits s s'"
  "commits s (s'\<lparr>incomment := f\<rparr>) = commits s s'"
  by (simp_all add: commits_def entry_committed_def section_committed_def)

lemma commits_same:
  "stack_ok (stackpos s) (RootKV s) \<Longrightarrow> RootKV s' = RootKV s \<Longrightarrow>
   stackpos s' = stackpos s \<Longrightarrow> parsed_key s \<longrightarrow> parsed_key s' \<Longrightarrow> commits s s'"
  by (auto simp: commits_def extends_refl)

lemma save_token_commits:
  assumes "save_token q s = Returns s'" "stack_ok (stackpos s) (RootKV s)"
  shows "commits s s'"
proof (cases "parsed_key s")
  case False
  with assms show ?thesis
    by (intro commits_same) (auto simp: save_token_def Let_def split: if_splits)
next
  case True
  define K where "K = (case q of None \<Rightarrow> CurrentKey s | Some b \<Rightarrow> (CurrentKey s)\<lparr>kquoted := b\<rparr>)"
  from assms(1) True have s': "s' = s\<lparr>parsed_key := False,
      RootKV := on_CurrentKV (stackpos s)
        (keys_update (\<lambda>ks. ks @ [K\<lparr>kvalue := Some (kvstrdup (buf s))\<rparr>])) (RootKV s),
      CurrentKey := K\<lparr>key := None, kvalue := None\<rparr>, buf := []\<rparr>"
    by (auto simp: save_token_def Let_def K_def split: if_splits)
  have k: "key K = key (CurrentKey s)" by (simp add: K_def split: option.splits)
  have "K\<lparr>kvalue := Some (kvstrdup (buf s))\<rparr> =
      K\<lparr>key := None, kvalue := None\<rparr>\<lparr>key := key (CurrentKey s), kvalue := Some (kvstrdup (buf s))\<rparr>"
    using k by (cases K) simp
  with assms(2) show ?thesis
    by (simp add: commits_def s' stack_ok_on_CurrentKV
          extends_on_CurrentKV [OF extends_keys_update]
          entry_committed_def CurrentKV_on_CurrentKV keys_update_def)
qed

lemma enter_scope_commits:
  assumes "enter_scope pKV s1 = Returns s'" "stack_ok (stackpos s1) (RootKV s1)"
    and "keys pKV = []" "child_sections pKV = []"
  shows "stack_ok (stackpos s') (RootKV s')" "extends (RootKV s1) (RootKV s')"
    "stackpos s' = Suc (stackpos s1)" "parsed_key s' = False"
    "child_sections (CurrentKV (stackpos s1) (RootKV s')) =
       child_sections (CurrentKV (stackpos s1) (RootKV s1)) @ [CurrentKV (stackpos s') (RootKV s')]"
    "name (CurrentKV (stackpos s') (RootKV s')) = name pKV"
    "keys (CurrentKV (stackpos s') (RootKV s')) = []"
    "child_sections (CurrentKV (stackpos s') (RootKV s')) = []"
proof -
  define N where "N = (if kquoted (CurrentKey s1) then quoted_update True pKV else pKV)"
  define R where "R = on_CurrentKV (stackpos s1) (child_sections_update (\<lambda>cs. cs @ [N])) (RootKV s1)"
  from assms(1) have s': "s' = s1\<lparr>parsed_key := False, RootKV := R,
      stackpos := stackpos s1 + 1, bracket_level := bracket_level s1 + 1\<rparr>"
    by (auto simp: enter_scope_def Let_def N_def R_def split: if_splits)
  have ok: "stack_ok (stackpos s1) R"
    unfolding R_def by (rule stack_ok_on_CurrentKV [OF assms(2)])
  have cur: "CurrentKV (stackpos s1) R =
      child_sections_update (\<lambda>cs. cs @ [N]) (CurrentKV (stackpos s1) (RootKV s1))"
    unfolding R_def by (rule CurrentKV_on_CurrentKV [OF assms(2)])
  then have cs: "child_sections (CurrentKV (stackpos s1) R) =
      child_sections (CurrentKV (stackpos s1) (RootKV s1)) @ [N]"
    by (simp add: child_sections_update_def)
  with ok have ok': "stack_ok (Suc (stackpos s1)) R" by (subst stack_ok_Suc) simp
  from CurrentKV_Suc [OF ok'] cs have top: "CurrentKV (Suc (stackpos s1)) R = N" by simp
  show "stack_ok (stackpos s') (RootKV s')" using ok' by (simp add: s')
  show "extends (RootKV s1) (RootKV s')"
    by (simp add: s' R_def extends_on_CurrentKV [OF extends_child_sections_update])
  show "stackpos s' = Suc (stackpos s1)" "parsed_key s' = False" by (simp_all add: s')
  show "child_sections (CurrentKV (stackpos s1) (RootKV s')) =
       child_sections (CurrentKV (stackpos s1) (RootKV s1)) @ [CurrentKV (stackpos s') (RootKV s')]"
    using cs top by (simp add: s')
  show "name (CurrentKV (stackpos s') (RootKV s')) = name pKV"
    "keys (CurrentKV (stackpos s') (RootKV s')) = []"
    "child_sections (CurrentKV (stackpos s') (RootKV s')) = []"
    using top assms(3,4) by (simp_all add: s' N_def quoted_update_def)
qed

lemma handle_char_commits:
  assumes h: "handle_char str i c st = Returns (Continue j st')"
    and ok: "stack_ok (stackpos st) (RootKV st)"
  shows "commits st st'"
proof -
  have same: "commits st st" by (rule commits_same [OF ok]) simp_all
  have tok: "commits st s2" if "save_token q (st\<lparr>inquote := b\<rparr>) = Returns s2" for q b s2
    using save_token_commits [OF that] ok by simp
  have tok': "commits st s2" if "save_token q st = Returns s2" for q s2
    using save_token_commits [OF that] ok by simp
  consider (nl) "c = CHR 0x0A"
    | (cm) "c \<noteq> CHR 0x0A" "c = CHR ''/'' \<and> (pc st = CHR ''/'' \<or> nc st = CHR ''/'') \<and> \<not> inquote st"
    | (inc) "c \<noteq> CHR 0x0A" "\<not> (c = CHR ''/'' \<and> (pc st = CHR ''/'' \<or> nc st = CHR ''/'') \<and> \<not> inquote st)"
        "incomment st"
    | (run) "c \<noteq> CHR 0x0A" "\<not> (c = CHR ''/'' \<and> (pc st = CHR ''/'' \<or> nc st = CHR ''/'') \<and> \<not> inquote st)"
        "\<not> incomment st"
    by blast
  then show ?thesis
  proof cases
    case nl
    with h have nq: "\<not> inquote st" by (auto simp: handle_char_def split: if_splits)
    show ?thesis
    proof (cases "buf st = []")
      case True
      with h nl nq have "st' = st\<lparr>incomment := False, inquote := False,
          nline := nline st + 1, nchar := 0\<rparr>"
        by (simp add: handle_char_def)
      with same show ?thesis by simp
    next
      case False
      with h nl nq obtain s2 where "save_token None st = Returns s2"
        "st' = s2\<lparr>incomment := False, inquote := False, nline := nline s2 + 1, nchar := 0\<rparr>"
        by (auto simp: handle_char_def bind_outcome_Returns)
      with tok' [of None s2] show ?thesis by simp
    qed
  next
    case cm
    with h have "st' = st\<lparr>incomment := True\<rparr>" by (simp add: handle_char_def)
    with same show ?thesis by simp
  next
    case inc
    with h have "st' = st" by (simp add: handle_char_def)
    with same show ?thesis by simp
  next
    case run
    note r = run
    consider (quote) "c = CHR 0x22" | (lb) "c \<noteq> CHR 0x22" "\<not> inquote st" "c = CHR ''{''"
      | (rb) "c \<noteq> CHR 0x22" "\<not> inquote st" "c = CHR ''}''"
      | (plain) "c \<noteq> CHR 0x22" "\<not> (\<not> inquote st \<and> c = CHR ''{'')"
          "\<not> (\<not> inquote st \<and> c = CHR ''}'')" "\<not> internal_isspace c \<or> inquote st"
      | (space) "c \<noteq> CHR 0x22" "\<not> (\<not> inquote st \<and> c = CHR ''{'')"
          "\<not> (\<not> inquote st \<and> c = CHR ''}'')" "\<not> (\<not> internal_isspace c \<or> inquote st)"
      by blast
    then show ?thesis
    proof cases
      case quote
      show ?thesis
      proof (cases "inquote st")
        case True
        with h r quote have "save_token (Some True) (st\<lparr>inquote := False\<rparr>) = Returns st'"
          by (auto simp: handle_char_def bind_outcome_Returns)
        then show ?thesis by (rule tok)
      next
        case False
        with h r quote have "st' = st\<lparr>inquote := True\<rparr>" by (simp add: handle_char_def)
        with same show ?thesis by simp
      qed
    next
      case lb
      show ?thesis
      proof (cases "parsed_key st")
        case True
        with h r lb obtain k where k: "key (CurrentKey st) = Some k"
          and en: "enter_scope (KeyValues_named k)
                     (st\<lparr>CurrentKey := (CurrentKey st)\<lparr>key := None\<rparr>\<rparr>) = Returns st'"
          by (auto simp: handle_char_def bind_outcome_Returns split: option.splits)
        from enter_scope_commits [OF en] ok True k show ?thesis
          by (simp add: commits_def section_committed_def KeyValues_named_def)
      next
        case False
        with h r lb have en: "enter_scope (KeyValues_named (buf st)) (st\<lparr>buf := []\<rparr>) = Returns st'"
          by (auto simp: handle_char_def bind_outcome_Returns split: if_splits)
        from enter_scope_commits [OF en] ok False show ?thesis
          by (simp add: commits_def section_committed_def KeyValues_named_def)
      qed
    next
      case rb
      with h r have ne: "stackpos st \<noteq> 0"
        and st': "st' = st\<lparr>stackpos := stackpos st - 1, bracket_level := bracket_level st - 1\<rparr>"
        by (auto simp: handle_char_def split: if_splits)
      from ne obtain d where d: "stackpos st = Suc d" by (cases "stackpos st") simp_all
      with ok have "stack_ok d (RootKV st)" by (simp only: stack_ok_Suc)
      with d show ?thesis by (simp add: commits_def st' extends_refl)
    next
      case plain
      with h r have "st' = st\<lparr>buf := buf st @ [c]\<rparr>"
        by (auto simp: handle_char_def split: if_splits)
      with ok show ?thesis by (intro commits_same) simp_all
    next
      case space
      then have sp: "internal_isspace c" "\<not> inquote st" by simp_all
      then have ns: "c \<noteq> CHR ''/''" by (auto simp: internal_isspace_def)
      show ?thesis
      proof (cases "buf st = []")
        case True
        with h r space sp ns have "st' = st" by (simp add: handle_char_def)
        with same show ?thesis by simp
      next
        case False
        with h r space sp ns
        have "save_token (Some False) (st\<lparr>inquote := False\<rparr>) = Returns st'"
          by (simp add: handle_char_def bind_outcome_Returns)
        then show ?thesis by (rule tok)
      qed
    qed
  qed
qed

lemma loop_body_commits:
  "loop_body string i s = Returns (Continue j s') \<Longrightarrow> stack_ok (stackpos s) (RootKV s) \<Longrightarrow>
   commits s s'"
  unfolding loop_body_handle by (drule handle_char_commits) simp_all

lemma after_iterations_scan:
  "after_iterations n string i0 s0 = Some (i, s) \<Longrightarrow> scan string i0 s0 = scan string i s"
proof (induction n arbitrary: i0 s0)
  case 0
  then show ?case by simp
next
  case (Suc n)
  from Suc.prems obtain j s1 where lt: "i0 < length string"
    and lb: "loop_body string i0 s0 = Returns (Continue j s1)" and j: "\<not> 2147483647 \<le> j"
    and it: "after_iterations n string (j + 1) (s1\<lparr>nchar := nchar s1 + 1\<rparr>) = Some (i, s)"
    by (auto split: if_splits outcome.splits step.splits)
  have "scan string i0 s0 = scan string (j + 1) (s1\<lparr>nchar := nchar s1 + 1\<rparr>)"
    using lt lb j by (subst scan.simps) simp
  with Suc.IH [OF it] show ?case by simp
qed

lemma after_iterations_stack_ok:
  "after_iterations n string i0 s0 = Some (i, s) \<Longrightarrow> stack_ok (stackpos s0) (RootKV s0) \<Longrightarrow>
   stack_ok (stackpos s) (RootKV s)"
proof (induction n arbitrary: i0 s0)
  case 0
  then show ?case by simp
next
  case (Suc n)
  from Suc.prems(1) obtain j s1 where lt: "i0 < length string"
    and lb: "loop_body string i0 s0 = Returns (Continue j s1)" and j: "\<not> 2147483647 \<le> j"
    and it: "after_iterations n string (j + 1) (s1\<lparr>nchar := nchar s1 + 1\<rparr>) = Some (i, s)"
    by (auto split: if_splits outcome.splits step.splits)
  from loop_body_commits [OF lb Suc.prems(2)]
  have "stack_ok (stackpos (s1\<lparr>nchar := nchar s1 + 1\<rparr>)) (RootKV (s1\<lparr>nchar := nchar s1 + 1\<rparr>))"
    by (simp add: commits_def)
  from Suc.IH [OF it this] show ?case .
qed

lemma scan_extends:
  "scan string i s = Returns (Loop_done st) \<Longrightarrow> stack_ok (stackpos s) (RootKV s) \<Longrightarrow>
   extends (RootKV s) (RootKV st)"
proof (induction string i s rule: scan.induct)
  case (1 string i s)
  show ?case
  proof (cases "i < length string")
    case False
    with "1.prems" show ?thesis by (simp add: scan.simps extends_refl)
  next
    case True
    with "1.prems"(1) obtain j s1 where lb: "loop_body string i s = Returns (Continue j s1)"
      and j: "\<not> 2147483647 \<le> j"
      and sc: "scan string (j + 1) (s1\<lparr>nchar := nchar s1 + 1\<rparr>) = Returns (Loop_done st)"
      by (subst (asm) scan.simps) (auto split: if_splits outcome.splits step.splits)
    from loop_body_commits [OF lb "1.prems"(2)]
    have c: "stack_ok (stackpos (s1\<lparr>nchar := nchar s1 + 1\<rparr>)) (RootKV (s1\<lparr>nchar := nchar s1 + 1\<rparr>))"
      and e: "extends (RootKV s) (RootKV s1)"
      by (simp_all add: commits_def)
    from "1.IH" [OF True lb _ j sc c] have "extends (RootKV s1) (RootKV st)" by simp
    with e show ?thesis by (rule extends_trans)
  qed
qed

lemma after_iterations_Suc:
  "after_iterations (Suc n) string i0 s0 = Some (i', s') \<Longrightarrow>
   \<exists>i s j s1. after_iterations n string i0 s0 = Some (i, s) \<and> i < length string \<and>
      loop_body string i s = Returns (Continue j s1) \<and> s' = s1\<lparr>nchar := nchar s1 + 1\<rparr>"
proof (induction n arbitrary: i0 s0)
  case 0
  then show ?case by (auto split: if_splits outcome.splits step.splits)
next
  case (Suc n)
  from Suc.prems obtain j s1 where lt: "i0 < length string"
    and lb: "loop_body string i0 s0 = Returns (Continue j s1)" and j: "\<not> 2147483647 \<le> j"
    and it: "after_iterations (Suc n) string (j + 1) (s1\<lparr>nchar := nchar s1 + 1\<rparr>) = Some (i', s')"
    by (subst (asm) after_iterations.simps)
       (auto split: if_splits outcome.splits step.splits)
  from Suc.IH [OF it] obtain i s j' s1' where
    a: "after_iterations n string (j + 1) (s1\<lparr>nchar := nchar s1 + 1\<rparr>) = Some (i, s)"
    and b: "i < length string" "loop_body string i s = Returns (Continue j' s1')"
      "s' = s1'\<lparr>nchar := nchar s1' + 1\<rparr>" by blast
  from lt lb j a have "after_iterations (Suc n) string i0 s0 = Some (i, s)" by simp
  with b show ?case by blast
qed

subsection \<open>The scanner without positions refines the loop\<close>

lemma norm_eqD:
  "norm st = norm x \<Longrightarrow>
   st = x\<lparr>nline := nline st, nchar := nchar st, pc := pc st, nc := nc st\<rparr>"
  by (cases st, cases x) (simp add: norm_def)

lemma norm_upd [simp]:
  "norm (st\<lparr>nline := a\<rparr>) = norm st" "norm (st\<lparr>nchar := b\<rparr>) = norm st"
  "norm (st\<lparr>pc := c\<rparr>) = norm st" "norm (st\<lparr>nc := d\<rparr>) = norm st"
  by (simp_all add: norm_def)

lemma save_token_norm:
  "save_token q (x\<lparr>nline := a, nchar := b, pc := c, nc := d\<rparr>) =
   (case save_token q x of Undefined u \<Rightarrow> Undefined u
    | Returns y \<Rightarrow> Returns (y\<lparr>nline := a, nchar := b, pc := c, nc := d\<rparr>))"
  by (cases x; cases q) (simp_all add: save_token_def Let_def)

lemma enter_scope_norm:
  "enter_scope k (x\<lparr>nline := a, nchar := b, pc := c, nc := d\<rparr>) =
   (case enter_scope k x of Undefined u \<Rightarrow> Undefined u
    | Returns y \<Rightarrow> Returns (y\<lparr>nline := a, nchar := b, pc := c, nc := d\<rparr>))"
  by (cases x) (simp add: enter_scope_def Let_def)

lemma save_token_quiet:
  "save_token q st = Returns y \<Longrightarrow>
   buf y = [] \<and> inquote y = inquote st \<and> incomment y = incomment st"
  by (auto simp: save_token_def Let_def split: if_splits)

lemma ok_of_Some: "ok_of m = Some y \<longleftrightarrow> m = Returns y"
  by (cases m) auto

lemma with_pos_sel [simp]:
  "inquote (with_pos a b c d st) = inquote st"
  "incomment (with_pos a b c d st) = incomment st"
  "parsed_key (with_pos a b c d st) = parsed_key st"
  "buf (with_pos a b c d st) = buf st"
  "CurrentKey (with_pos a b c d st) = CurrentKey st"
  "stackpos (with_pos a b c d st) = stackpos st"
  "bracket_level (with_pos a b c d st) = bracket_level st"
  "RootKV (with_pos a b c d st) = RootKV st"
  "errors (with_pos a b c d st) = errors st"
  "nline (with_pos a b c d st) = a"
  "nchar (with_pos a b c d st) = b"
  "pc (with_pos a b c d st) = c"
  "nc (with_pos a b c d st) = d"
  by (simp_all add: with_pos_def)

lemma with_pos_upd [simp]:
  "(with_pos a b c d st)\<lparr>inquote := v1\<rparr> = with_pos a b c d (st\<lparr>inquote := v1\<rparr>)"
  "(with_pos a b c d st)\<lparr>incomment := v2\<rparr> = with_pos a b c d (st\<lparr>incomment := v2\<rparr>)"
  "(with_pos a b c d st)\<lparr>buf := v3\<rparr> = with_pos a b c d (st\<lparr>buf := v3\<rparr>)"
  "(with_pos a b c d st)\<lparr>CurrentKey := v4\<rparr> = with_pos a b c d (st\<lparr>CurrentKey := v4\<rparr>)"
  "(with_pos a b c d st)\<lparr>stackpos := v5\<rparr> = with_pos a b c d (st\<lparr>stackpos := v5\<rparr>)"
  "(with_pos a b c d st)\<lparr>bracket_level := v6\<rparr> = with_pos a b c d (st\<lparr>bracket_level := v6\<rparr>)"
  "(with_pos a b c d st)\<lparr>nline := a'\<rparr> = with_pos a' b c d st"
  "(with_pos a b c d st)\<lparr>nchar := b'\<rparr> = with_pos a b' c d st"
  by (cases st; simp add: with_pos_def)+

lemma norm_with_pos [simp]: "norm (with_pos a b c d st) = norm st"
  by (simp add: with_pos_def)

lemma save_token_with_pos:
  "save_token q x = Returns y \<Longrightarrow>
   save_token q (with_pos a b c d x) = Returns (with_pos a b c d y)"
  by (simp add: save_token_norm with_pos_def)

lemma enter_scope_with_pos:
  "enter_scope k x = Returns y \<Longrightarrow>
   enter_scope k (with_pos a b c d x) = Returns (with_pos a b c d y)"
  by (simp add: enter_scope_norm with_pos_def)

lemma flags_same:
  "\<not> inquote x \<Longrightarrow> \<not> incomment x \<Longrightarrow> x\<lparr>incomment := False, inquote := False\<rparr> = x"
  by (cases x) simp

lemma inquote_same: "\<not> inquote x \<Longrightarrow> x\<lparr>inquote := False\<rparr> = x"
  by (cases x) simp

lemma handle_refines:
  assumes "astep c x = Some x1"
    and sl: "c = CHR ''/'' \<Longrightarrow> \<not> inquote x \<Longrightarrow> P \<noteq> CHR ''/'' \<and> N \<noteq> CHR ''/''"
  shows "\<exists>j st1. handle_char s i c (with_pos a b P N x)
             = Returns (Continue j st1) \<and> norm st1 = norm x1 \<and>
           (j = i \<or> (j = skip_space s i \<and> quiet x1))"
proof -
  note assms = assms(1)
  from assms have nocom: "\<not> incomment x"
    by (auto simp: astep_def split: if_splits)
  show ?thesis
  proof (cases "c = CHR 0x0A")
    case True
    with assms nocom have nq: "\<not> inquote x"
      by (auto simp: astep_def split: if_splits)
    show ?thesis
    proof (cases "buf x = []")
      case e: True
      with assms nocom True nq have "x1 = x" by (simp add: astep_def)
      with True nq e nocom show ?thesis
        by (simp add: handle_char_def flags_same)
    next
      case ne: False
      with assms nocom True nq have sv: "save_token None x = Returns x1"
        by (simp add: astep_def ok_of_Some)
      from save_token_quiet [OF sv] nq nocom
      have "\<not> inquote x1" "\<not> incomment x1" by simp_all
      with True nq ne nocom save_token_with_pos [OF sv, where a=a and b=b and c=P and d=N]
      show ?thesis
        by (simp add: handle_char_def flags_same)
    qed
  next
    case nl: False
    show ?thesis
    proof (cases "inquote x")
      case inq: True
      show ?thesis
      proof (cases "c = CHR 0x22")
        case True
        with assms nocom inq have sv: "save_token (Some True) (x\<lparr>inquote := False\<rparr>) = Returns x1"
          by (simp add: astep_def ok_of_Some)
        with True inq nocom save_token_with_pos [OF sv, where a=a and b=b and c=P and d=N]
        show ?thesis
          by (simp add: handle_char_def)
      next
        case False
        with assms nocom inq nl have "length (buf x) \<le> 511" "x1 = x\<lparr>buf := buf x @ [c]\<rparr>"
          by (auto simp: astep_def split: if_splits)
        with False inq nocom nl show ?thesis
          by (simp add: handle_char_def)
      qed
    next
      case nq: False
      consider (quote) "c = CHR 0x22" | (lb) "c = CHR ''{''" | (rb) "c = CHR ''}''"
        | (slash) "c = CHR ''/''"
        | (plain) "c \<noteq> CHR 0x22" "c \<noteq> CHR ''{''" "c \<noteq> CHR ''}''" "c \<noteq> CHR ''/''"
            "\<not> internal_isspace c"
        | (space) "c \<noteq> CHR 0x22" "c \<noteq> CHR ''{''" "c \<noteq> CHR ''}''" "c \<noteq> CHR ''/''"
            "internal_isspace c"
        by blast
      then show ?thesis
      proof cases
        case slash
        with sl nq have pn: "P \<noteq> CHR ''/''" "N \<noteq> CHR ''/''" by simp_all
        from assms nocom nq slash
        have "length (buf x) \<le> 511" "x1 = x\<lparr>buf := buf x @ [c]\<rparr>"
          by (auto simp: astep_def internal_isspace_def split: if_splits)
        with slash nq nocom pn show ?thesis
          by (simp add: handle_char_def internal_isspace_def)
      next
        case quote
        with assms nocom nq nl have "x1 = x\<lparr>inquote := True\<rparr>"
          by (simp add: astep_def)
        with quote nq nocom nl show ?thesis
          by (simp add: handle_char_def)
      next
        case lb
        show ?thesis
        proof (cases "parsed_key x")
          case True
          with assms nocom nq nl lb obtain k where k: "key (CurrentKey x) = Some k"
            and en: "enter_scope (KeyValues_named k) (x\<lparr>CurrentKey := (CurrentKey x)\<lparr>key := None\<rparr>\<rparr>) = Returns x1"
            by (auto simp: astep_def ok_of_Some split: option.splits)
          with True lb nq nocom nl k
            enter_scope_with_pos [OF en, where a=a and b=b and c=P and d=N] show ?thesis
            by (simp add: handle_char_def)
        next
          case False
          with assms nocom nq nl lb have ne: "buf x \<noteq> []" and le: "length (buf x) \<le> 511"
            and en: "enter_scope (KeyValues_named (buf x)) (x\<lparr>buf := []\<rparr>) = Returns x1"
            by (auto simp: astep_def ok_of_Some split: if_splits)
          with False lb nq nocom nl ne le
            enter_scope_with_pos [OF en, where a=a and b=b and c=P and d=N] show ?thesis
            by (simp add: handle_char_def)
        qed
      next
        case rb
        with assms nocom nq nl have "stackpos x \<noteq> 0"
          "x1 = x\<lparr>stackpos := stackpos x - 1, bracket_level := bracket_level x - 1\<rparr>"
          by (auto simp: astep_def split: if_splits)
        with rb nq nocom nl show ?thesis
          by (simp add: handle_char_def)
      next
        case plain
        with assms nocom nq nl have "length (buf x) \<le> 511" "x1 = x\<lparr>buf := buf x @ [c]\<rparr>"
          by (auto simp: astep_def split: if_splits)
        with plain nq nocom nl show ?thesis
          by (simp add: handle_char_def)
      next
        case space
        show ?thesis
        proof (cases "buf x = []")
          case True
          with assms nocom nq nl space have "x1 = x" by (simp add: astep_def)
          with True space nq nocom nl show ?thesis
            by (simp add: handle_char_def quiet_def)
        next
          case False
          with assms nocom nq nl space have sv: "save_token (Some False) x = Returns x1"
            by (simp add: astep_def ok_of_Some)
          with False space nq nocom nl
            save_token_with_pos [OF sv, where a=a and b=b and c=P and d=N]
            save_token_quiet [OF sv] show ?thesis
            by (simp add: handle_char_def quiet_def inquote_same)
        qed
      qed
    qed
  qed
qed

lemma astep_refines:
  assumes "norm st = norm x" "astep (s ! i) x = Some x1"
    and sl: "s ! i = CHR ''/'' \<Longrightarrow> \<not> inquote x \<Longrightarrow>
      (if i > 0 then s ! (i - 1) else pc st) \<noteq> CHR ''/'' \<and>
      (if i < length s - 1 then s ! (i + 1) else nc st) \<noteq> CHR ''/''"
  shows "\<exists>j st1. loop_body s i st = Returns (Continue j st1) \<and> norm st1 = norm x1 \<and>
           (j = i \<or> (j = skip_space s i \<and> quiet x1))"
proof -
  obtain a b c d where st: "st = with_pos a b c d x"
    using norm_eqD [OF assms(1)] unfolding with_pos_def by blast
  have e: "st\<lparr>pc := (if i > 0 then s ! (i - 1) else pc st),
          nc := (if i < length s - 1 then s ! (i + 1) else nc st)\<rparr>
      = with_pos a b (if i > 0 then s ! (i - 1) else c)
           (if i < length s - 1 then s ! (i + 1) else d) x"
    by (simp add: st with_pos_def)
  have "\<exists>j st1. handle_char s i (s ! i)
           (with_pos a b (if i > 0 then s ! (i - 1) else c)
              (if i < length s - 1 then s ! (i + 1) else d) x)
             = Returns (Continue j st1) \<and> norm st1 = norm x1 \<and>
           (j = i \<or> (j = skip_space s i \<and> quiet x1))"
    using sl by (intro handle_refines [OF assms(2)]) (auto simp: st split: if_splits)
  with e show ?thesis by (simp add: loop_body_handle)
qed

lemma skip_space_run:
  "i < length s \<Longrightarrow>
   \<exists>ws. drop (Suc i) s = ws @ drop (Suc (skip_space s i)) s \<and>
        (\<forall>c\<in>set ws. internal_isspace c) \<and> skip_space s i < length s"
proof (induction s i rule: skip_space.induct)
  case (1 string i)
  show ?case
  proof (cases "i < length string - 1 \<and> internal_isspace (string ! (i + 1))")
    case True
    then have lt: "i + 1 < length string" by auto
    from "1.IH" [OF True lt] obtain ws where
      ws: "drop (Suc (i + 1)) string = ws @ drop (Suc (skip_space string (i + 1))) string"
      "\<forall>c\<in>set ws. internal_isspace c" "skip_space string (i + 1) < length string"
      by blast
    have sk: "skip_space string i = skip_space string (i + 1)"
      using True by (subst skip_space.simps) simp
    have "drop (Suc i) string = string ! (i + 1) # drop (Suc (i + 1)) string"
      using lt by (simp add: Cons_nth_drop_Suc)
    with ws True sk show ?thesis
      by (intro exI [of _ "string ! (i + 1) # ws"]) simp
  next
    case False
    then have "skip_space string i = i" by (subst skip_space.simps) auto
    with "1.prems" show ?thesis by (intro exI [of _ "[]"]) simp
  qed
qed

lemma astep_space_quiet:
  "internal_isspace c \<Longrightarrow> quiet st \<Longrightarrow> astep c st = Some st"
  by (auto simp: astep_def quiet_def internal_isspace_def)

lemma ascan_spaces_quiet:
  "\<forall>c\<in>set ws. internal_isspace c \<Longrightarrow> quiet st \<Longrightarrow> ascan (ws @ rest) st = ascan rest st"
  by (induction ws) (simp_all add: astep_space_quiet)

lemma skip_space_lands:
  "skip_space s i \<noteq> i \<Longrightarrow> internal_isspace (s ! skip_space s i)"
proof (induction s i rule: skip_space.induct)
  case (1 string i)
  show ?case
  proof (cases "i < length string - 1 \<and> internal_isspace (string ! (i + 1))")
    case True
    then have sk: "skip_space string i = skip_space string (i + 1)"
      by (subst skip_space.simps) simp
    show ?thesis
    proof (cases "skip_space string (i + 1) = i + 1")
      case e: True
      with sk True show ?thesis by simp
    next
      case False
      from "1.IH" [OF True False] sk show ?thesis by simp
    qed
  next
    case False
    then have "skip_space string i = i" by (subst skip_space.simps) auto
    with "1.prems" show ?thesis by simp
  qed
qed

lemma astep_inquote: "astep c x = Some x1 \<Longrightarrow> inquote x1 = quote_after (inquote x) c"
  by (auto simp: astep_def quote_after_def ok_of_Some save_token_def enter_scope_def Let_def
        split: if_splits option.splits)

lemma no_comment_other:
  "p' \<noteq> CHR ''/'' \<Longrightarrow> no_comment q p r \<Longrightarrow> no_comment q p' r"
  by (cases r) simp_all

lemma no_comment_spaces:
  "\<forall>c\<in>set ws. internal_isspace c \<Longrightarrow> no_comment False p (ws @ r) \<Longrightarrow>
   p' \<noteq> CHR ''/'' \<Longrightarrow> no_comment False p' r"
proof (induction ws arbitrary: p)
  case Nil
  then show ?case by (simp add: no_comment_other)
next
  case (Cons w ws)
  from Cons.prems(1) have "quote_after False w = False"
    by (auto simp: quote_after_def internal_isspace_def)
  with Cons.prems have "no_comment False w (ws @ r)" by simp
  with Cons.IH Cons.prems show ?case by simp
qed

lemma ascan_refines:
  assumes len: "length s \<le> 2147483647" and lastc: "s \<noteq> [] \<Longrightarrow> last s \<noteq> CHR ''/''"
  shows "i \<le> length s \<Longrightarrow> norm st = norm x \<Longrightarrow> ascan (drop i s) x = Some y \<Longrightarrow>
         no_comment (inquote x) (if i > 0 then s ! (i - 1) else pc st) (drop i s) \<Longrightarrow>
         \<exists>st'. scan s i st = Returns (Loop_done st') \<and> norm st' = norm y"
proof (induction "length s - i" arbitrary: i st x rule: less_induct)
  case less
  show ?case
  proof (cases "i < length s")
    case False
    with less.prems have "i = length s" by simp
    with less.prems show ?thesis by (simp add: scan.simps)
  next
    case True
    then have dr: "drop i s = s ! i # drop (Suc i) s" by (simp add: Cons_nth_drop_Suc)
    with less.prems(3) obtain x1 where x1: "astep (s ! i) x = Some x1"
      and rest: "ascan (drop (Suc i) s) x1 = Some y"
      by (auto simp: ascan.simps split: option.splits)
    from less.prems(4) dr
    have chk: "s ! i = CHR ''/'' \<Longrightarrow> \<not> inquote x \<Longrightarrow>
        (if i > 0 then s ! (i - 1) else pc st) \<noteq> CHR ''/''"
      and nxt: "no_comment (quote_after (inquote x) (s ! i)) (s ! i) (drop (Suc i) s)"
      by auto
    have nx: "(if i < length s - 1 then s ! (i + 1) else nc st) \<noteq> CHR ''/''"
      if sl: "s ! i = CHR ''/''" and nq: "\<not> inquote x"
    proof (cases "i < length s - 1")
      case lt: True
      then have "drop (Suc i) s = s ! (i + 1) # drop (Suc (i + 1)) s"
        by (simp add: Cons_nth_drop_Suc)
      with nxt sl nq lt show ?thesis by (simp add: quote_after_def)
    next
      case False
      with True have "i = length s - 1" by simp
      moreover from True have ne: "s \<noteq> []" by auto
      ultimately have "s ! i = last s" "s \<noteq> []" by (simp_all add: last_conv_nth)
      with lastc sl show ?thesis by simp
    qed
    have "\<exists>j st1. loop_body s i st = Returns (Continue j st1) \<and> norm st1 = norm x1 \<and>
           (j = i \<or> (j = skip_space s i \<and> quiet x1))"
      using chk nx by (intro astep_refines [OF less.prems(2) x1]) simp
    then obtain j st1 where
      lb: "loop_body s i st = Returns (Continue j st1)" and n1: "norm st1 = norm x1"
      and j: "j = i \<or> (j = skip_space s i \<and> quiet x1)" by blast
    from skip_space_run [OF True] obtain ws where
      ws: "drop (Suc i) s = ws @ drop (Suc (skip_space s i)) s"
      "\<forall>c\<in>set ws. internal_isspace c" and sklt: "skip_space s i < length s" by blast
    from j True sklt have jlt: "j < length s" by auto
    from j skip_space_ge [of i s] have ij: "i \<le> j" by auto
    have rest': "ascan (drop (Suc j) s) x1 = Some y"
    proof (cases "j = i")
      case True with rest show ?thesis by simp
    next
      case False
      with j have "j = skip_space s i" "quiet x1" by simp_all
      with rest ws ascan_spaces_quiet [of ws x1] show ?thesis by simp
    qed
    have nc': "no_comment (inquote x1) (s ! j) (drop (Suc j) s)"
    proof (cases "j = i")
      case True with nxt astep_inquote [OF x1] show ?thesis by simp
    next
      case False
      with j have jj: "j = skip_space s i" and q1: "quiet x1" by simp_all
      from skip_space_lands [of s i] False jj have "internal_isspace (s ! j)" by simp
      then have ns: "s ! j \<noteq> CHR ''/''" by (auto simp: internal_isspace_def)
      from q1 astep_inquote [OF x1] have "quote_after (inquote x) (s ! i) = False"
        "inquote x1 = False" by (simp_all add: quiet_def)
      with nxt ws jj no_comment_spaces [OF ws(2) _ ns, of "s ! i" "drop (Suc j) s"]
      show ?thesis by simp
    qed
    have "\<exists>st'. scan s (Suc j) (st1\<lparr>nchar := nchar st1 + 1\<rparr>) = Returns (Loop_done st') \<and>
            norm st' = norm y"
      using jlt ij True rest' n1 nc' by (intro less.hyps) auto
    moreover have "scan s i st = scan s (Suc j) (st1\<lparr>nchar := nchar st1 + 1\<rparr>)"
      using True lb jlt len by (subst scan.simps) simp
    ultimately show ?thesis by simp
  qed
qed

lemma ascan_append:
  "ascan (a @ b) st = (case ascan a st of None \<Rightarrow> None | Some st' \<Rightarrow> ascan b st')"
  by (induction a arbitrary: st) (auto split: option.splits)

lemma ascan_plain:
  "list_all plain_char t \<Longrightarrow> \<not> inquote st \<Longrightarrow> \<not> incomment st \<Longrightarrow>
   length (buf st) + length t \<le> 512 \<Longrightarrow>
   ascan t st = Some (st\<lparr>buf := buf st @ t\<rparr>)"
proof (induction t arbitrary: st)
  case Nil
  then show ?case by simp
next
  case (Cons c t)
  from Cons.prems have c: "plain_char c" and t: "list_all plain_char t" by simp_all
  from c Cons.prems have "astep c st = Some (st\<lparr>buf := buf st @ [c]\<rparr>)"
    by (auto simp: astep_def plain_char_def internal_isspace_def)
  moreover have "ascan t (st\<lparr>buf := buf st @ [c]\<rparr>) =
      Some (st\<lparr>buf := buf st @ [c]\<rparr>\<lparr>buf := buf (st\<lparr>buf := buf st @ [c]\<rparr>) @ t\<rparr>)"
    using Cons.prems t by (intro Cons.IH) simp_all
  ultimately show ?case by simp
qed

lemma ascan_inquote:
  "list_all (\<lambda>c. c \<noteq> CHR 0x22 \<and> c \<noteq> CHR 0x0A \<and> c \<noteq> CHR 0x00) t \<Longrightarrow>
   inquote st \<Longrightarrow> \<not> incomment st \<Longrightarrow>
   length (buf st) + length t \<le> 512 \<Longrightarrow>
   ascan t st = Some (st\<lparr>buf := buf st @ t\<rparr>)"
proof (induction t arbitrary: st)
  case Nil
  then show ?case by simp
next
  case (Cons c t)
  from Cons.prems have c: "c \<noteq> CHR 0x22" "c \<noteq> CHR 0x0A"
    and t: "list_all (\<lambda>c. c \<noteq> CHR 0x22 \<and> c \<noteq> CHR 0x0A \<and> c \<noteq> CHR 0x00) t" by simp_all
  from c Cons.prems have "astep c st = Some (st\<lparr>buf := buf st @ [c]\<rparr>)"
    by (auto simp: astep_def)
  moreover have "ascan t (st\<lparr>buf := buf st @ [c]\<rparr>) =
      Some (st\<lparr>buf := buf st @ [c]\<rparr>\<lparr>buf := buf (st\<lparr>buf := buf st @ [c]\<rparr>) @ t\<rparr>)"
    using Cons.prems t by (intro Cons.IH) simp_all
  ultimately show ?case by simp
qed

lemma kvstrdup_id: "list_all (\<lambda>c. c \<noteq> CHR 0x00) t \<Longrightarrow> kvstrdup t = t"
  by (simp add: kvstrdup_def list_all_iff)

lemma bare_quoted: "bare_token t \<Longrightarrow> quoted_token t"
  by (auto simp: bare_token_def quoted_token_def plain_char_def internal_isspace_def list_all_iff)

lemma tabs_spaces: "\<forall>c\<in>set (tabs n). internal_isspace c"
  by (simp add: tabs_def internal_isspace_def)

lemma ascan_tabs: "quiet st \<Longrightarrow> ascan (tabs n @ rest) st = ascan rest st"
  by (rule ascan_spaces_quiet [OF tabs_spaces])

declare ascan.simps(2) [simp del]

lemma quiet_upd [simp]:
  "quiet (st\<lparr>parsed_key := a\<rparr>) = quiet st"
  "quiet (st\<lparr>CurrentKey := b\<rparr>) = quiet st"
  "quiet (st\<lparr>RootKV := c\<rparr>) = quiet st"
  "quiet (st\<lparr>stackpos := d\<rparr>) = quiet st"
  "quiet (st\<lparr>bracket_level := e\<rparr>) = quiet st"
  by (simp_all add: quiet_def)

lemma unquote_buf: "\<not> inquote st \<Longrightarrow> st\<lparr>inquote := True, buf := t, inquote := False\<rparr> = st\<lparr>buf := t\<rparr>"
  by (cases st) simp

lemma buf_same: "buf st = [] \<Longrightarrow> st\<lparr>buf := []\<rparr> = st"
  by (cases st) simp

lemma ascan_bare_sp:
  assumes "bare_token t" "quiet st"
  shows "ascan (t @ CHR '' '' # rest) st =
     (case save_token (Some False) (st\<lparr>buf := t\<rparr>) of
        Returns st' \<Rightarrow> ascan rest st' | Undefined u \<Rightarrow> None)"
proof -
  from assms have "ascan t st = Some (st\<lparr>buf := buf st @ t\<rparr>)"
    by (intro ascan_plain) (auto simp: bare_token_def quiet_def)
  with assms have a: "ascan t st = Some (st\<lparr>buf := t\<rparr>)" by (simp add: quiet_def)
  from assms have "astep (CHR '' '') (st\<lparr>buf := t\<rparr>) = ok_of (save_token (Some False) (st\<lparr>buf := t\<rparr>))"
    by (simp add: astep_def quiet_def bare_token_def internal_isspace_def)
  with a show ?thesis
    by (cases "save_token (Some False) (st\<lparr>buf := t\<rparr>)") (simp_all add: ascan_append ascan.simps)
qed

lemma ascan_bare_nl:
  assumes "bare_token t" "quiet st"
  shows "ascan (t @ CHR 0x0A # rest) st =
     (case save_token None (st\<lparr>buf := t\<rparr>) of
        Returns st' \<Rightarrow> ascan rest st' | Undefined u \<Rightarrow> None)"
proof -
  from assms have "ascan t st = Some (st\<lparr>buf := buf st @ t\<rparr>)"
    by (intro ascan_plain) (auto simp: bare_token_def quiet_def)
  with assms have a: "ascan t st = Some (st\<lparr>buf := t\<rparr>)" by (simp add: quiet_def)
  from assms have "astep (CHR 0x0A) (st\<lparr>buf := t\<rparr>) = ok_of (save_token None (st\<lparr>buf := t\<rparr>))"
    by (simp add: astep_def quiet_def bare_token_def)
  with a show ?thesis
    by (cases "save_token None (st\<lparr>buf := t\<rparr>)") (simp_all add: ascan_append ascan.simps)
qed

lemma ascan_quoted:
  assumes "quoted_token t" "quiet st"
  shows "ascan (CHR 0x22 # t @ CHR 0x22 # rest) st =
     (case save_token (Some True) (st\<lparr>buf := t\<rparr>) of
        Returns st' \<Rightarrow> ascan rest st' | Undefined u \<Rightarrow> None)"
proof -
  from assms have o: "astep (CHR 0x22) st = Some (st\<lparr>inquote := True\<rparr>)"
    by (simp add: astep_def quiet_def)
  from assms have "ascan t (st\<lparr>inquote := True\<rparr>) =
      Some (st\<lparr>inquote := True\<rparr>\<lparr>buf := buf (st\<lparr>inquote := True\<rparr>) @ t\<rparr>)"
    by (intro ascan_inquote) (auto simp: quoted_token_def quiet_def)
  with assms have a: "ascan t (st\<lparr>inquote := True\<rparr>) = Some (st\<lparr>inquote := True, buf := t\<rparr>)"
    by (simp add: quiet_def)
  from assms have "astep (CHR 0x22) (st\<lparr>inquote := True, buf := t\<rparr>)
      = ok_of (save_token (Some True) (st\<lparr>buf := t\<rparr>))"
    by (simp add: astep_def quiet_def unquote_buf)
  with a o show ?thesis
    by (cases "save_token (Some True) (st\<lparr>buf := t\<rparr>)") (simp_all add: ascan_append ascan.simps)
qed

lemma ascan_nl_quiet: "quiet st \<Longrightarrow> ascan (CHR 0x0A # rest) st = ascan rest st"
  by (simp add: ascan.simps astep_space_quiet internal_isspace_def)

lemma ascan_sp_quiet: "quiet st \<Longrightarrow> ascan (CHR '' '' # rest) st = ascan rest st"
  by (simp add: ascan.simps astep_space_quiet internal_isspace_def)

lemma quoted_token_nonul: "quoted_token t \<Longrightarrow> kvstrdup t = t"
  by (rule kvstrdup_id) (auto simp: quoted_token_def list_all_iff)

lemma token_ok_quoted: "token_ok q t \<Longrightarrow> quoted_token t"
  by (auto simp: token_ok_def bare_quoted split: if_splits)

lemma ascan_entry:
  assumes ok: "key_ok k" and dump: "dump_key (tabs n) k = Returns txt" and b: "boundary d R st"
  shows "\<exists>st' k'. ascan (txt @ rest) st = ascan rest st' \<and>
           boundary d (on_CurrentKV d (keys_update (\<lambda>ks. ks @ [k'])) R) st' \<and>
           key k' = key k \<and> kvalue k' = kvalue k \<and> kquoted k'"
proof -
  from ok obtain kk v where kk: "key k = Some kk" and v: "kvalue k = Some v"
    and tk: "token_ok (kquoted k) kk" and tv: "quoted_token v"
    by (auto simp: key_ok_def split: option.splits)
  from b have q: "quiet st" and np: "\<not> parsed_key st" by (simp_all add: boundary_def)
  from tk have lk: "length kk \<le> 511" "kvstrdup kk = kk"
    using token_ok_quoted [OF tk] by (simp_all add: quoted_token_def quoted_token_nonul)
  from tv have lv: "length v \<le> 511" "kvstrdup v = v"
    by (simp_all add: quoted_token_def quoted_token_nonul)
  define q0 where "q0 = kquoted k"
  define K1 where "K1 = (CurrentKey st)\<lparr>kquoted := q0, key := Some kk\<rparr>"
  define st1 where "st1 = st\<lparr>CurrentKey := K1, parsed_key := True\<rparr>"
  define k' where "k' = K1\<lparr>kquoted := True, kvalue := Some v\<rparr>"
  define st2 where "st2 = st\<lparr>parsed_key := False,
      RootKV := on_CurrentKV (stackpos st) (keys_update (\<lambda>ks. ks @ [k'])) (RootKV st),
      CurrentKey := K1\<lparr>kquoted := True, key := None, kvalue := None\<rparr>\<rparr>"
  have q1: "quiet st1" using q by (simp add: st1_def)
  have sv1: "save_token (Some q0) (st\<lparr>buf := kk\<rparr>) = Returns st1"
    using np lk q by (simp add: save_token_def Let_def st1_def K1_def buf_same quiet_def)
  have sv2: "save_token (Some True) (st1\<lparr>buf := v\<rparr>) = Returns st2"
    using lv q by (simp add: save_token_def Let_def st1_def st2_def k'_def buf_same quiet_def)
  have key_part: "ascan ((if q0 then CHR 0x22 # kk @ CHR 0x22 # CHR '' '' # r
                          else kk @ CHR '' '' # r)) st = ascan r st1" for r
  proof (cases q0)
    case True
    with tk have "quoted_token kk" by (simp add: token_ok_def q0_def)
    from ascan_quoted [OF this q] sv1 True q1 show ?thesis
      by (simp add: ascan_sp_quiet)
  next
    case False
    with tk have "bare_token kk" by (simp add: token_ok_def q0_def)
    from ascan_bare_sp [OF this q] sv1 False show ?thesis by simp
  qed
  have val_part: "ascan (CHR 0x22 # v @ CHR 0x22 # CHR 0x0A # r) st1 = ascan r st2" for r
  proof -
    have "quiet st2" using q by (simp add: st2_def)
    with ascan_quoted [OF tv q1] sv2 show ?thesis by (simp add: ascan_nl_quiet)
  qed
  have tx: "txt @ rest = tabs n @ (if q0 then CHR 0x22 # kk @ CHR 0x22 # CHR '' '' #
                 CHR 0x22 # v @ CHR 0x22 # CHR 0x0A # rest
               else kk @ CHR '' '' # CHR 0x22 # v @ CHR 0x22 # CHR 0x0A # rest)"
    using dump by (auto simp: dump_key_def kk v q0_def)
  have "ascan (txt @ rest) st = ascan rest st2"
    unfolding tx ascan_tabs [OF q] using key_part val_part by simp
  moreover have "boundary d (on_CurrentKV d (keys_update (\<lambda>ks. ks @ [k'])) R) st2"
    using b by (simp add: boundary_def st2_def)
  moreover have "key k' = key k" "kvalue k' = kvalue k" "kquoted k'"
    by (simp_all add: k'_def K1_def kk v)
  ultimately show ?thesis by blast
qed

lemma on_CurrentKV_comp:
  "on_CurrentKV d f (on_CurrentKV d g R) = on_CurrentKV d (\<lambda>kv. f (g kv)) R"
proof (induction d arbitrary: R)
  case 0
  show ?case by simp
next
  case (Suc d)
  show ?case
    by (cases R) (simp add: child_sections_update_def Suc.IH)
qed

lemma on_CurrentKV_ident: "on_CurrentKV d (\<lambda>kv. kv) R = R"
proof (induction d arbitrary: R)
  case 0
  show ?case by simp
next
  case (Suc d)
  show ?case
    by (cases R) (simp add: child_sections_update_def Suc.IH)
qed

lemma on_CurrentKV_child:
  "on_CurrentKV (Suc d) f (on_CurrentKV d (child_sections_update (\<lambda>cs. cs @ [N])) R) =
   on_CurrentKV d (child_sections_update (\<lambda>cs. cs @ [f N])) R"
proof (induction d arbitrary: R)
  case 0
  show ?case by (cases R) (simp add: child_sections_update_def)
next
  case (Suc d)
  let ?g = "child_sections_update (\<lambda>cs. cs @ [N])"
  let ?g' = "child_sections_update (\<lambda>cs. cs @ [f N])"
  show ?case
  proof (cases "child_sections R = []")
    case True
    then show ?thesis by simp
  next
    case False
    let ?cs = "child_sections R"
    let ?R' = "child_sections_update (\<lambda>cs. butlast cs @ [on_CurrentKV d ?g (last cs)]) R"
    have 1: "on_CurrentKV (Suc d) ?g R = ?R'" using False by simp
    have 2: "child_sections ?R' = butlast ?cs @ [on_CurrentKV d ?g (last ?cs)]"
      by (simp add: child_sections_update_def)
    have "on_CurrentKV (Suc (Suc d)) f ?R' =
        child_sections_update (\<lambda>cs. butlast cs @ [on_CurrentKV (Suc d) f (last cs)]) ?R'"
      by (subst on_CurrentKV.simps(2)) (simp only: 2, simp del: on_CurrentKV.simps)
    also have "\<dots> = child_sections_update
        (\<lambda>cs. butlast ?cs @ [on_CurrentKV (Suc d) f (on_CurrentKV d ?g (last ?cs))]) R"
      by (simp add: child_sections_update_def del: on_CurrentKV.simps)
    also have "\<dots> = child_sections_update
        (\<lambda>cs. butlast ?cs @ [on_CurrentKV d ?g' (last ?cs)]) R"
      by (simp only: Suc.IH)
    also have "\<dots> = on_CurrentKV (Suc d) ?g' R"
      using False by (simp add: child_sections_update_def)
    finally show ?thesis by (simp only: 1)
  qed
qed

lemma keys_update_comp:
  "keys_update f (keys_update g kv) = keys_update (\<lambda>ks. f (g ks)) kv"
  by (simp add: keys_update_def)

lemma concat_outcome_Cons:
  "concat_outcome (x # xs) = Returns t \<longleftrightarrow>
   (\<exists>a b. x = Returns a \<and> concat_outcome xs = Returns b \<and> t = a @ b)"
  by (cases x; cases "concat_outcome xs") auto

lemma key_ok_requoted:
  "key_ok k \<Longrightarrow> key k' = key k \<Longrightarrow> kvalue k' = kvalue k \<Longrightarrow> kquoted k' \<Longrightarrow> key_ok k'"
  by (auto simp: key_ok_def token_ok_def bare_quoted split: option.splits if_splits)

lemma ascan_entries:
  "list_all key_ok ks \<Longrightarrow> concat_outcome (map (dump_key (tabs n)) ks) = Returns a \<Longrightarrow>
   boundary d R st \<Longrightarrow>
   \<exists>st' ks'. ascan (a @ rest) st = ascan rest st' \<and>
      boundary d (on_CurrentKV d (keys_update (\<lambda>x. x @ ks')) R) st' \<and>
      map (\<lambda>k. (key k, kvalue k)) ks' = map (\<lambda>k. (key k, kvalue k)) ks \<and>
      list_all key_ok ks'"
proof (induction ks arbitrary: a R st)
  case Nil
  then show ?case
    by (intro exI [of _ st] exI [of _ "[]"])
       (simp add: keys_update_def on_CurrentKV_ident [unfolded keys_update_def])
next
  case (Cons k ks)
  from Cons.prems(2) obtain a1 a2 where a1: "dump_key (tabs n) k = Returns a1"
    and a2: "concat_outcome (map (dump_key (tabs n)) ks) = Returns a2" and a: "a = a1 @ a2"
    by (auto simp: concat_outcome_Cons simp del: concat_outcome.simps)
  from Cons.prems(1) have k: "key_ok k" and ks: "list_all key_ok ks" by simp_all
  from ascan_entry [OF k a1 Cons.prems(3), of "a2 @ rest"] obtain st1 k' where
    s1: "ascan (a1 @ a2 @ rest) st = ascan (a2 @ rest) st1"
    and b1: "boundary d (on_CurrentKV d (keys_update (\<lambda>ks. ks @ [k'])) R) st1"
    and k': "key k' = key k" "kvalue k' = kvalue k" "kquoted k'" by blast
  from Cons.IH [OF ks a2 b1] obtain st2 ks' where
    s2: "ascan (a2 @ rest) st1 = ascan rest st2"
    and b2: "boundary d (on_CurrentKV d (keys_update (\<lambda>x. x @ ks'))
               (on_CurrentKV d (keys_update (\<lambda>ks. ks @ [k'])) R)) st2"
    and ks': "map (\<lambda>k. (key k, kvalue k)) ks' = map (\<lambda>k. (key k, kvalue k)) ks"
      "list_all key_ok ks'" by blast
  have "on_CurrentKV d (keys_update (\<lambda>x. x @ ks'))
               (on_CurrentKV d (keys_update (\<lambda>ks. ks @ [k'])) R)
        = on_CurrentKV d (keys_update (\<lambda>x. x @ k' # ks')) R"
    by (simp add: on_CurrentKV_comp keys_update_comp)
  with b2 have "boundary d (on_CurrentKV d (keys_update (\<lambda>x. x @ k' # ks')) R) st2" by simp
  moreover have "ascan (a @ rest) st = ascan rest st2" using s1 s2 a by simp
  moreover have "map (\<lambda>k. (key k, kvalue k)) (k' # ks') = map (\<lambda>k. (key k, kvalue k)) (k # ks)"
    using k' ks' by simp
  moreover have "list_all key_ok (k' # ks')"
    using key_ok_requoted [OF k k'] ks' by simp
  ultimately show ?case by blast
qed

lemma dump_named:
  assumes "DumpToStreamInternal (KeyValues (Some n) g q ks cs) indent = Returns txt"
    and "indent \<le> 127"
  shows "\<exists>a b. concat_outcome (map (dump_key (tabs (indent + 1))) ks) = Returns a \<and>
           concat_outcome (map (\<lambda>c. DumpToStreamInternal c (indent + 1)) cs) = Returns b \<and>
           txt = (if q then tabs indent @ [CHR 0x22] @ n @ [CHR 0x22, CHR 0x0A]
                  else tabs indent @ n @ [CHR 0x0A])
                 @ tabs indent @ [CHR ''{'', CHR 0x0A]
                 @ a @ b @ tabs indent @ [CHR ''}'', CHR 0x0A]"
  using assms by (auto simp: bind_outcome_Returns)

lemma dump_named_bound:
  "section_ok C \<Longrightarrow> DumpToStreamInternal C i = Returns t \<Longrightarrow> i \<le> 128 \<Longrightarrow> i \<le> 127"
  by (cases C) (auto split: option.splits if_splits)

lemma child_sections_update_comp:
  "child_sections_update f (child_sections_update g kv) =
   child_sections_update (\<lambda>cs. f (g cs)) kv"
  by (simp add: child_sections_update_def)

lemma ascan_children:
  "\<forall>c\<in>set cs. section_ok c \<and> scans_section c \<Longrightarrow>
   concat_outcome (map (\<lambda>c. DumpToStreamInternal c i) cs) = Returns b \<Longrightarrow>
   i \<le> 128 \<Longrightarrow> d \<le> i \<Longrightarrow> boundary d R st \<Longrightarrow>
   \<exists>st' cs'. ascan (b @ rest) st = ascan rest st' \<and>
      boundary d (on_CurrentKV d (child_sections_update (\<lambda>x. x @ cs')) R) st' \<and>
      map skeleton_of cs' = map skeleton_of cs \<and> list_all section_ok cs'"
proof (induction cs arbitrary: b R st)
  case Nil
  then show ?case
    by (intro exI [of _ st] exI [of _ "[]"])
       (simp add: child_sections_update_def on_CurrentKV_ident [unfolded child_sections_update_def])
next
  case (Cons c cs)
  from Cons.prems(2) obtain b1 b2 where b1: "DumpToStreamInternal c i = Returns b1"
    and b2: "concat_outcome (map (\<lambda>c. DumpToStreamInternal c i) cs) = Returns b2"
    and b: "b = b1 @ b2"
    by (auto simp: concat_outcome_Cons simp del: concat_outcome.simps)
  from Cons.prems(1) have c: "section_ok c" "scans_section c"
    and cs: "\<forall>c\<in>set cs. section_ok c \<and> scans_section c" by simp_all
  from dump_named_bound [OF c(1) b1 Cons.prems(3)] have i: "i \<le> 127" .
  from c(2) b1 i Cons.prems(4,5) obtain st1 c' where
    s1: "ascan (b1 @ b2 @ rest) st = ascan (b2 @ rest) st1"
    and bd1: "boundary d (on_CurrentKV d (child_sections_update (\<lambda>cs. cs @ [c'])) R) st1"
    and c': "skeleton_of c' = skeleton_of c" "section_ok c'"
    unfolding scans_section_def by blast
  from Cons.IH [OF cs b2 Cons.prems(3,4) bd1] obtain st2 cs' where
    s2: "ascan (b2 @ rest) st1 = ascan rest st2"
    and bd2: "boundary d (on_CurrentKV d (child_sections_update (\<lambda>x. x @ cs'))
               (on_CurrentKV d (child_sections_update (\<lambda>cs. cs @ [c'])) R)) st2"
    and cs': "map skeleton_of cs' = map skeleton_of cs" "list_all section_ok cs'" by blast
  have "on_CurrentKV d (child_sections_update (\<lambda>x. x @ cs'))
               (on_CurrentKV d (child_sections_update (\<lambda>cs. cs @ [c'])) R)
        = on_CurrentKV d (child_sections_update (\<lambda>x. x @ c' # cs')) R"
    by (simp add: on_CurrentKV_comp child_sections_update_comp)
  with bd2 have "boundary d (on_CurrentKV d (child_sections_update (\<lambda>x. x @ c' # cs')) R) st2"
    by simp
  moreover have "ascan (b @ rest) st = ascan rest st2" using s1 s2 b by simp
  moreover have "map skeleton_of (c' # cs') = map skeleton_of (c # cs)"
    using c' cs' by simp
  moreover have "list_all section_ok (c' # cs')" using c' cs' by simp
  ultimately show ?case by blast
qed

lemma astep_open:
  assumes "quiet st" "parsed_key st" "key (CurrentKey st) = Some n" "stackpos st < 511"
    "list_all (\<lambda>c. c \<noteq> CHR 0x00) n"
  shows "astep (CHR ''{'') st =
     Some (st\<lparr>CurrentKey := (CurrentKey st)\<lparr>key := None\<rparr>, parsed_key := False,
        RootKV := on_CurrentKV (stackpos st)
          (child_sections_update
             (\<lambda>cs. cs @ [KeyValues (Some n) True (kquoted (CurrentKey st)) [] []]))
          (RootKV st),
        stackpos := stackpos st + 1, bracket_level := bracket_level st + 1\<rparr>)"
  using assms
  by (simp add: astep_def quiet_def enter_scope_def Let_def KeyValues_named_def
        quoted_update_def kvstrdup_id)

lemma astep_close:
  assumes "quiet st" "stackpos st = Suc d"
  shows "astep (CHR ''}'') st =
     Some (st\<lparr>stackpos := d, bracket_level := bracket_level st - 1\<rparr>)"
  using assms by (simp add: astep_def quiet_def)

lemma section_scans: "section_ok C \<Longrightarrow> scans_section C"
proof (induction C)
  case (KeyValues nm g q ks cs)
  from KeyValues.prems obtain n where nm: "nm = Some n" and tn: "token_ok q n"
    and ks: "list_all key_ok ks" and cs: "list_all section_ok cs"
    by (auto split: option.splits)
  from KeyValues.IH cs have ih: "\<forall>c\<in>set cs. section_ok c \<and> scans_section c"
    by (auto simp: list_all_iff)
  from token_ok_quoted [OF tn] have nn: "list_all (\<lambda>c. c \<noteq> CHR 0x00) n" "length n \<le> 511"
    "kvstrdup n = n"
    by (auto simp: quoted_token_def list_all_iff quoted_token_nonul)
  show ?case
    unfolding scans_section_def nm
  proof (intro allI impI, goal_cases)
    case (1 indent d R st out rest)
    then have dump: "DumpToStreamInternal (KeyValues (Some n) g q ks cs) indent = Returns out"
      and ind: "indent \<le> 127" and d: "d \<le> indent" and bd: "boundary d R st"
      by simp_all
    from dump_named [OF dump ind] obtain a b where
      a: "concat_outcome (map (dump_key (tabs (indent + 1))) ks) = Returns a"
      and b: "concat_outcome (map (\<lambda>c. DumpToStreamInternal c (indent + 1)) cs) = Returns b"
      and tx: "out = (if q then tabs indent @ [CHR 0x22] @ n @ [CHR 0x22, CHR 0x0A]
                  else tabs indent @ n @ [CHR 0x0A])
                 @ tabs indent @ [CHR ''{'', CHR 0x0A]
                 @ a @ b @ tabs indent @ [CHR ''}'', CHR 0x0A]" by blast
    from bd have qt: "quiet st" and np: "\<not> parsed_key st" and sp: "stackpos st = d"
      and bl: "bracket_level st = int d" and rt: "RootKV st = R" and er: "errors st = []"
      by (simp_all add: boundary_def)
    define K1 where "K1 = (if q then (CurrentKey st)\<lparr>kquoted := True\<rparr> else CurrentKey st)
                            \<lparr>key := Some n\<rparr>"
    define st1 where "st1 = st\<lparr>CurrentKey := K1, parsed_key := True\<rparr>"
    define N0 where "N0 = KeyValues (Some n) True (kquoted K1) [] []"
    define st2 where "st2 = st1\<lparr>CurrentKey := K1\<lparr>key := None\<rparr>, parsed_key := False,
        RootKV := on_CurrentKV d (child_sections_update (\<lambda>cs. cs @ [N0])) R,
        stackpos := d + 1, bracket_level := int d + 1\<rparr>"
    have q1: "quiet st1" using qt by (simp add: st1_def)
    have q2: "quiet st2" using qt by (simp add: st2_def st1_def)
    \<comment> \<open>the name\<close>
    have name_part: "ascan ((if q then tabs indent @ [CHR 0x22] @ n @ [CHR 0x22, CHR 0x0A]
                  else tabs indent @ n @ [CHR 0x0A]) @ r) st = ascan r st1" for r
    proof (cases q)
      case True
      with tn have "quoted_token n" by (simp add: token_ok_def)
      from ascan_quoted [OF this qt, of "CHR 0x0A # r"] np nn qt True q1 show ?thesis
        by (simp add: ascan_tabs save_token_def Let_def st1_def K1_def buf_same quiet_def
              ascan_nl_quiet)
    next
      case False
      with tn have "bare_token n" by (simp add: token_ok_def)
      from ascan_bare_nl [OF this qt, of r] np nn qt False show ?thesis
        by (simp add: ascan_tabs save_token_def Let_def st1_def K1_def buf_same quiet_def)
    qed
    \<comment> \<open>the opening brace\<close>
    have "astep (CHR ''{'') st1 = Some st2"
      using astep_open [OF q1, of n] sp d ind nn bl rt
      by (simp add: st1_def st2_def K1_def N0_def)
    then have open_part: "ascan (tabs indent @ [CHR ''{'', CHR 0x0A] @ r) st1 = ascan r st2" for r
      using q1 q2 by (simp add: ascan_tabs ascan.simps astep_space_quiet internal_isspace_def)
    have bd2: "boundary (Suc d) (on_CurrentKV d (child_sections_update (\<lambda>cs. cs @ [N0])) R) st2"
      using bd by (simp add: boundary_def st2_def st1_def)
    \<comment> \<open>entries and children\<close>
    from ascan_entries [OF ks a bd2, of "b @ tabs indent @ [CHR ''}'', CHR 0x0A] @ rest"]
    obtain st3 ks' where
      s3: "ascan (a @ b @ tabs indent @ [CHR ''}'', CHR 0x0A] @ rest) st2
           = ascan (b @ tabs indent @ [CHR ''}'', CHR 0x0A] @ rest) st3"
      and bd3: "boundary (Suc d) (on_CurrentKV (Suc d) (keys_update (\<lambda>x. x @ ks'))
                 (on_CurrentKV d (child_sections_update (\<lambda>cs. cs @ [N0])) R)) st3"
      and ks': "map (\<lambda>k. (key k, kvalue k)) ks' = map (\<lambda>k. (key k, kvalue k)) ks"
        "list_all key_ok ks'" by blast
    have "indent + 1 \<le> 128" "Suc d \<le> indent + 1" using ind d by simp_all
    from ascan_children [OF ih b this bd3, of "tabs indent @ [CHR ''}'', CHR 0x0A] @ rest"]
    obtain st4 cs' where
      s4: "ascan (b @ tabs indent @ [CHR ''}'', CHR 0x0A] @ rest) st3
           = ascan (tabs indent @ [CHR ''}'', CHR 0x0A] @ rest) st4"
      and bd4: "boundary (Suc d) (on_CurrentKV (Suc d) (child_sections_update (\<lambda>x. x @ cs'))
                 (on_CurrentKV (Suc d) (keys_update (\<lambda>x. x @ ks'))
                 (on_CurrentKV d (child_sections_update (\<lambda>cs. cs @ [N0])) R))) st4"
      and cs': "map skeleton_of cs' = map skeleton_of cs" "list_all section_ok cs'" by blast
    define C' where "C' = child_sections_update (\<lambda>x. x @ cs') (keys_update (\<lambda>x. x @ ks') N0)"
    have R4: "on_CurrentKV (Suc d) (child_sections_update (\<lambda>x. x @ cs'))
                 (on_CurrentKV (Suc d) (keys_update (\<lambda>x. x @ ks'))
                 (on_CurrentKV d (child_sections_update (\<lambda>cs. cs @ [N0])) R))
            = on_CurrentKV d (child_sections_update (\<lambda>cs. cs @ [C'])) R"
      by (simp only: on_CurrentKV_child C'_def)
    \<comment> \<open>the closing brace\<close>
    define st5 where "st5 = st4\<lparr>stackpos := d, bracket_level := bracket_level st4 - 1\<rparr>"
    from bd4 have q4: "quiet st4" and sp4: "stackpos st4 = Suc d" by (simp_all add: boundary_def)
    have q5: "quiet st5" using q4 by (simp add: st5_def)
    have close_part: "ascan (tabs indent @ [CHR ''}'', CHR 0x0A] @ rest) st4 = ascan rest st5"
      using astep_close [OF q4 sp4] q4 q5
      by (simp add: ascan_tabs ascan.simps astep_space_quiet internal_isspace_def st5_def)
    have bd5: "boundary d (on_CurrentKV d (child_sections_update (\<lambda>cs. cs @ [C'])) R) st5"
      using bd4 unfolding R4 by (simp add: boundary_def st5_def)
    have "ascan (out @ rest) st = ascan rest st5"
      unfolding tx using name_part open_part s3 s4 close_part by simp
    moreover have "skeleton_of C' = skeleton_of (KeyValues (Some n) g q ks cs)"
      using ks' cs' by (simp add: C'_def N0_def keys_update_def child_sections_update_def)
    moreover have "section_ok C'"
    proof -
      have "token_ok (kquoted K1) n"
        using tn by (auto simp: K1_def token_ok_def bare_quoted)
      with ks' cs' show ?thesis
        by (simp add: C'_def N0_def keys_update_def child_sections_update_def)
    qed
    ultimately show ?case
      using bd5 by blast
  qed
qed

lemma depth_child:
  "c \<in> set cs \<Longrightarrow> Suc (depth_of c) \<le> foldr (\<lambda>c m. max (Suc (depth_of c)) m) cs 0"
  by (induction cs) auto

lemma nesting_child:
  "c \<in> set cs \<Longrightarrow> Suc (nesting c) \<le> nesting (KeyValues nm g q ks cs)"
  using depth_child [of "skeleton_of c" "map skeleton_of cs"] by (simp add: nesting_def)

lemma dump_keys_total:
  "list_all key_ok ks \<Longrightarrow> \<exists>a. concat_outcome (map (dump_key b) ks) = Returns a"
proof (induction ks)
  case Nil
  show ?case by simp
next
  case (Cons k ks)
  then obtain a where a: "concat_outcome (map (dump_key b) ks) = Returns a" by auto
  from Cons.prems have "key_ok k" by simp
  then obtain t where "dump_key b k = Returns t"
    by (auto simp: key_ok_def dump_key_def split: option.splits)
  with a show ?case by simp
qed

lemma concat_outcome_total:
  "\<forall>x\<in>set xs. \<exists>t. f x = Returns t \<Longrightarrow> \<exists>b. concat_outcome (map f xs) = Returns b"
proof (induction xs)
  case Nil
  show ?case by simp
next
  case (Cons x xs)
  then obtain b t where "concat_outcome (map f xs) = Returns b" "f x = Returns t" by auto
  then show ?case by simp
qed

lemma dump_section_total:
  "section_ok C \<Longrightarrow> indent + nesting C \<le> 127 \<Longrightarrow>
   \<exists>out. DumpToStreamInternal C indent = Returns out"
proof (induction C arbitrary: indent)
  case (KeyValues nm g q ks cs)
  from KeyValues.prems(1) obtain n where nm: "nm = Some n"
    and ks: "list_all key_ok ks" and cs: "list_all section_ok cs"
    by (auto split: option.splits)
  from dump_keys_total [OF ks] obtain a where
    a: "concat_outcome (map (dump_key (tabs (indent + 1))) ks) = Returns a" by blast
  have "\<forall>c\<in>set cs. \<exists>t. DumpToStreamInternal c (indent + 1) = Returns t"
  proof
    fix c assume c: "c \<in> set cs"
    with cs have "section_ok c" by (simp add: list_all_iff)
    moreover from nesting_child [OF c, of nm g q ks] KeyValues.prems(2)
    have "indent + 1 + nesting c \<le> 127" by simp
    ultimately show "\<exists>t. DumpToStreamInternal c (indent + 1) = Returns t"
      by (rule KeyValues.IH [OF c])
  qed
  from concat_outcome_total [OF this] obtain b where
    "concat_outcome (map (\<lambda>c. DumpToStreamInternal c (indent + 1)) cs) = Returns b" by blast
  with a KeyValues.prems(2) show ?case by (simp add: nm)
qed

lemma dump_document:
  assumes "document_ok T"
  shows "\<exists>a b. concat_outcome (map (dump_key (tabs 0)) (keys T)) = Returns a \<and>
           concat_outcome (map (\<lambda>c. DumpToStreamInternal c 1) (child_sections T)) = Returns b \<and>
           DumpToStream T = Returns (a @ b)"
proof (cases T)
  case (KeyValues nm g q ks cs)
  with assms have nm: "nm = None" and ks: "list_all key_ok ks"
    and cs: "list_all section_ok cs" and n: "nesting T \<le> 127"
    by (auto simp: document_ok_def)
  from dump_keys_total [OF ks] obtain a where
    a: "concat_outcome (map (dump_key (tabs 0)) ks) = Returns a" by blast
  have "\<forall>c\<in>set cs. \<exists>t. DumpToStreamInternal c 1 = Returns t"
  proof
    fix c assume c: "c \<in> set cs"
    with cs have "section_ok c" by (simp add: list_all_iff)
    moreover from nesting_child [OF c, of nm g q ks] n KeyValues
    have "1 + nesting c \<le> 127" by simp
    ultimately show "\<exists>t. DumpToStreamInternal c 1 = Returns t"
      by (rule dump_section_total)
  qed
  from concat_outcome_total [OF this] obtain b where
    b: "concat_outcome (map (\<lambda>c. DumpToStreamInternal c 1) cs) = Returns b" by blast
  with a show ?thesis by (simp add: KeyValues nm DumpToStream_def)
qed

lemma norm_fields:
  assumes "norm st = norm y"
  shows "inquote st = inquote y" "bracket_level st = bracket_level y"
    "RootKV st = RootKV y" "errors st = errors y" "stackpos st = stackpos y"
  using assms by (cases st, cases y, simp add: norm_def)+

lemma no_comment_append:
  "no_comment q p (a @ b) =
   (no_comment q p a \<and> no_comment (foldl quote_after q a) (last (p # a)) b)"
  by (induction a arbitrary: q p) auto

lemma clean_append: "clean a \<Longrightarrow> clean b \<Longrightarrow> clean (a @ b)"
  by (cases "a = []"; cases "b = []") (auto simp: clean_def no_comment_append)

lemma no_comment_tabs: "no_comment False p (tabs n)"
  by (induction n arbitrary: p) (simp_all add: tabs_def quote_after_def)

lemma quote_after_tabs: "foldl quote_after False (tabs n) = False"
  by (induction n) (simp_all add: tabs_def quote_after_def)

lemma last_tabs: "p \<noteq> CHR ''/'' \<Longrightarrow> last (p # tabs n) \<noteq> CHR ''/''"
  by (cases n) (simp_all add: tabs_def)

lemma clean_line:
  assumes "no_comment False (CHR 0x0A) body" "foldl quote_after False body = False"
  shows "clean (tabs n @ body @ [CHR 0x0A])"
proof -
  have "last (CHR 0x0A # tabs n) \<noteq> CHR ''/''" by (rule last_tabs) simp
  from no_comment_other [OF this assms(1)]
  have "no_comment False (last (CHR 0x0A # tabs n)) body" .
  with assms(2) show ?thesis
    by (simp add: clean_def no_comment_append no_comment_tabs quote_after_tabs
          quote_after_def)
qed

lemma no_comment_plain:
  "list_all plain_char t \<Longrightarrow> single_slashes (p # t) \<Longrightarrow>
   no_comment False p t \<and> foldl quote_after False t = False"
proof (induction t arbitrary: p)
  case Nil
  show ?case by simp
next
  case (Cons c t)
  from Cons.prems have "quote_after False c = False"
    by (simp add: quote_after_def plain_char_def)
  with Cons.IH [of c] Cons.prems show ?case by auto
qed

lemma single_slashes_Cons: "p \<noteq> CHR ''/'' \<Longrightarrow> single_slashes t \<Longrightarrow> single_slashes (p # t)"
  by (cases t) simp_all

lemma no_comment_bare:
  assumes "bare_token t"
  shows "no_comment False (CHR 0x0A) t" and "foldl quote_after False t = False"
proof -
  from assms have "list_all plain_char t" "single_slashes (CHR 0x0A # t)"
    by (simp_all add: bare_token_def single_slashes_Cons)
  from no_comment_plain [OF this]
  show "no_comment False (CHR 0x0A) t" and "foldl quote_after False t = False"
    by simp_all
qed

lemma no_comment_quoted:
  assumes "quoted_token t"
  shows "no_comment True p t" and "foldl quote_after True t = True"
proof -
  from assms have "list_all (\<lambda>c. c \<noteq> CHR 0x22 \<and> c \<noteq> CHR 0x0A \<and> c \<noteq> CHR 0x00) t"
    by (simp add: quoted_token_def)
  then show "no_comment True p t" and "foldl quote_after True t = True"
    by (induction t arbitrary: p) (simp_all add: quote_after_def)
qed

lemma clean_entry:
  assumes ok: "key_ok k" and dump: "dump_key (tabs n) k = Returns out"
  shows "clean out"
proof -
  from ok obtain kk v where kk: "key k = Some kk" and v: "kvalue k = Some v"
    and tk: "token_ok (kquoted k) kk" and tv: "quoted_token v"
    by (auto simp: key_ok_def split: option.splits)
  show ?thesis
  proof (cases "kquoted k")
    case True
    with tk have qk: "quoted_token kk" by (simp add: token_ok_def)
    from dump True have "out = tabs n @
        (CHR 0x22 # kk @ CHR 0x22 # CHR '' '' # CHR 0x22 # v @ CHR 0x22 # []) @ [CHR 0x0A]"
      by (simp add: dump_key_def kk v)
    moreover have "clean (tabs n @
        (CHR 0x22 # kk @ CHR 0x22 # CHR '' '' # CHR 0x22 # v @ CHR 0x22 # []) @ [CHR 0x0A])"
      by (rule clean_line)
         (simp_all add: no_comment_append no_comment_quoted [OF qk] no_comment_quoted [OF tv]
            quote_after_def)
    ultimately show ?thesis by simp
  next
    case False
    with tk have bk: "bare_token kk" by (simp add: token_ok_def)
    from dump False have "out = tabs n @
        (kk @ CHR '' '' # CHR 0x22 # v @ CHR 0x22 # []) @ [CHR 0x0A]"
      by (simp add: dump_key_def kk v)
    moreover have "clean (tabs n @
        (kk @ CHR '' '' # CHR 0x22 # v @ CHR 0x22 # []) @ [CHR 0x0A])"
      by (rule clean_line)
         (simp_all add: no_comment_append no_comment_bare [OF bk] no_comment_quoted [OF tv]
            quote_after_def)
    ultimately show ?thesis by simp
  qed
qed

lemma clean_entries:
  "list_all key_ok ks \<Longrightarrow> concat_outcome (map (dump_key (tabs n)) ks) = Returns a \<Longrightarrow>
   clean a"
proof (induction ks arbitrary: a)
  case Nil
  then show ?case by (simp add: clean_def)
next
  case (Cons k ks)
  from Cons.prems(2) obtain x y where x: "dump_key (tabs n) k = Returns x"
    and y: "concat_outcome (map (dump_key (tabs n)) ks) = Returns y" and a: "a = x @ y"
    by (auto simp: concat_outcome_Cons simp del: concat_outcome.simps)
  from Cons.prems(1) have "key_ok k" "list_all key_ok ks" by simp_all
  with clean_entry [OF _ x] Cons.IH [OF _ y] show ?case
    unfolding a by (intro clean_append) simp_all
qed

lemma clean_children:
  "\<forall>c\<in>set cs. \<forall>t. f c = Returns t \<longrightarrow> clean t \<Longrightarrow>
   concat_outcome (map f cs) = Returns b \<Longrightarrow> clean b"
proof (induction cs arbitrary: b)
  case Nil
  then show ?case by (simp add: clean_def)
next
  case (Cons c cs)
  from Cons.prems(2) obtain x y where x: "f c = Returns x"
    and y: "concat_outcome (map f cs) = Returns y" and b: "b = x @ y"
    by (auto simp: concat_outcome_Cons simp del: concat_outcome.simps)
  from Cons.prems(1) x have "clean x" by simp
  moreover from Cons.prems(1) have "clean y" by (intro Cons.IH [OF _ y]) simp
  ultimately show ?case unfolding b by (rule clean_append)
qed

lemma clean_section:
  "section_ok C \<Longrightarrow> DumpToStreamInternal C indent = Returns out \<Longrightarrow> clean out"
proof (induction C arbitrary: indent out)
  case (KeyValues nm g q ks cs)
  from KeyValues.prems(1) obtain n where nm: "nm = Some n" and tn: "token_ok q n"
    and ks: "list_all key_ok ks" and cs: "list_all section_ok cs"
    by (auto split: option.splits)
  show ?case
  proof (cases "indent > 128")
    case True
    with KeyValues.prems(2) show ?thesis by (simp add: clean_def)
  next
    case False
    with KeyValues.prems(2) have i: "indent \<le> 127"
      by (auto simp: nm split: if_splits)
    from dump_named [OF KeyValues.prems(2) [unfolded nm] i] obtain a b where
      a: "concat_outcome (map (dump_key (tabs (indent + 1))) ks) = Returns a"
      and b: "concat_outcome (map (\<lambda>c. DumpToStreamInternal c (indent + 1)) cs) = Returns b"
      and out: "out = (if q then tabs indent @ [CHR 0x22] @ n @ [CHR 0x22, CHR 0x0A]
                  else tabs indent @ n @ [CHR 0x0A])
                 @ tabs indent @ [CHR ''{'', CHR 0x0A]
                 @ a @ b @ tabs indent @ [CHR ''}'', CHR 0x0A]"
      by blast
    have ca: "clean a" by (rule clean_entries [OF ks a])
    have cb: "clean b"
    proof (rule clean_children [OF _ b], intro ballI allI impI)
      fix c t assume "c \<in> set cs" "DumpToStreamInternal c (indent + 1) = Returns t"
      with cs KeyValues.IH show "clean t" by (auto simp: list_all_iff)
    qed
    have nmline: "clean (if q then tabs indent @ [CHR 0x22] @ n @ [CHR 0x22, CHR 0x0A]
                  else tabs indent @ n @ [CHR 0x0A])"
    proof (cases q)
      case True
      with tn have qn: "quoted_token n" by (simp add: token_ok_def)
      have "clean (tabs indent @ (CHR 0x22 # n @ CHR 0x22 # []) @ [CHR 0x0A])"
        by (rule clean_line)
           (simp_all add: no_comment_append no_comment_quoted [OF qn] quote_after_def)
      with True show ?thesis by simp
    next
      case False
      with tn have bn: "bare_token n" by (simp add: token_ok_def)
      have "clean (tabs indent @ (n @ []) @ [CHR 0x0A])"
        by (rule clean_line) (simp_all add: no_comment_bare [OF bn])
      with False show ?thesis by simp
    qed
    have op: "clean (tabs indent @ [CHR ''{'', CHR 0x0A])"
      using clean_line [of "[CHR ''{'']" indent] by (simp add: quote_after_def)
    have cl: "clean (tabs indent @ [CHR ''}'', CHR 0x0A])"
      using clean_line [of "[CHR ''}'']" indent] by (simp add: quote_after_def)
    have "out = (if q then tabs indent @ [CHR 0x22] @ n @ [CHR 0x22, CHR 0x0A]
                  else tabs indent @ n @ [CHR 0x0A])
                 @ (tabs indent @ [CHR ''{'', CHR 0x0A])
                 @ a @ b @ (tabs indent @ [CHR ''}'', CHR 0x0A])"
      by (simp add: out)
    then show ?thesis
      by (simp only:) (intro nmline op ca cb cl clean_append)
  qed
qed

lemma clean_document:
  assumes "document_ok T" "DumpToStream T = Returns out"
  shows "clean out"
proof -
  from dump_document [OF assms(1)] assms(2) obtain a b where
    a: "concat_outcome (map (dump_key (tabs 0)) (keys T)) = Returns a"
    and b: "concat_outcome (map (\<lambda>c. DumpToStreamInternal c 1) (child_sections T)) = Returns b"
    and out: "out = a @ b" by auto
  from assms(1) have ks: "list_all key_ok (keys T)"
    and cs: "list_all section_ok (child_sections T)"
    by (simp_all add: document_ok_def)
  have "clean a" by (rule clean_entries [OF ks a])
  moreover have "clean b"
  proof (rule clean_children [OF _ b], intro ballI allI impI)
    fix c t assume "c \<in> set (child_sections T)" "DumpToStreamInternal c 1 = Returns t"
    with cs clean_section show "clean t" by (auto simp: list_all_iff)
  qed
  ultimately show ?thesis unfolding out by (rule clean_append)
qed

lemma clean_no_comment:
  assumes "clean out" "no_leading_comment u out"
  shows "no_comment False (pc0 u) out" and "out \<noteq> [] \<Longrightarrow> last out \<noteq> CHR ''/''"
  using assms by (cases out; simp add: clean_def no_leading_comment_def)+

lemma parse_of_dump:
  assumes ok: "document_ok T" and dump: "DumpToStream T = Returns out"
    and len: "length out \<le> 2147483647" and lead: "no_leading_comment u out"
  shows "\<exists>T'. ParseString u KeyValues_new out = Returns (True, T', []) \<and>
           same_structure T' T \<and> document_ok T'"
proof -
  note nocm = clean_no_comment [OF clean_document [OF ok dump] lead]
  from dump_document [OF ok] dump obtain a b where
    a: "concat_outcome (map (dump_key (tabs 0)) (keys T)) = Returns a"
    and b: "concat_outcome (map (\<lambda>c. DumpToStreamInternal c 1) (child_sections T)) = Returns b"
    and out: "out = a @ b" by auto
  from ok have nm: "name T = None" and ks: "list_all key_ok (keys T)"
    and cs: "list_all section_ok (child_sections T)" and n: "nesting T \<le> 127"
    by (simp_all add: document_ok_def)
  define R0 where "R0 = KeyValues None True False [] []"
  define st0 where "st0 = initial_state u KeyValues_new"
  have bd0: "boundary 0 R0 st0"
    by (simp add: boundary_def quiet_def st0_def initial_state_def R0_def KeyValues_new_def
          good_update_def)
  from ascan_entries [OF ks a bd0, of b] obtain st1 ks' where
    s1: "ascan (a @ b) st0 = ascan b st1"
    and bd1: "boundary 0 (on_CurrentKV 0 (keys_update (\<lambda>x. x @ ks')) R0) st1"
    and ks': "map (\<lambda>k. (key k, kvalue k)) ks' = map (\<lambda>k. (key k, kvalue k)) (keys T)"
      "list_all key_ok ks'" by blast
  have ih: "\<forall>c\<in>set (child_sections T). section_ok c \<and> scans_section c"
    using cs section_scans by (auto simp: list_all_iff)
  from ascan_children [OF ih b _ _ bd1, of "[]"] obtain st2 cs' where
    s2: "ascan b st1 = Some st2"
    and bd2: "boundary 0 (on_CurrentKV 0 (child_sections_update (\<lambda>x. x @ cs'))
               (on_CurrentKV 0 (keys_update (\<lambda>x. x @ ks')) R0)) st2"
    and cs': "map skeleton_of cs' = map skeleton_of (child_sections T)"
      "list_all section_ok cs'" by auto
  define T' where "T' = KeyValues None True False ks' cs'"
  have T': "on_CurrentKV 0 (child_sections_update (\<lambda>x. x @ cs'))
               (on_CurrentKV 0 (keys_update (\<lambda>x. x @ ks')) R0) = T'"
    by (simp add: T'_def R0_def keys_update_def child_sections_update_def)
  have "ascan (drop 0 out) st0 = Some st2" using s1 s2 out by simp
  moreover have "no_comment (inquote st0) (if 0 < (0::nat) then out ! (0 - 1) else pc st0)
      (drop 0 out)"
    using nocm(1) by (simp add: st0_def initial_state_def)
  ultimately have "\<exists>st'. scan out 0 st0 = Returns (Loop_done st') \<and> norm st' = norm st2"
    using nocm(2) by (intro ascan_refines [OF len, where x=st0]) simp_all
  then obtain st' where
    sc: "scan out 0 st0 = Returns (Loop_done st')" and nn: "norm st' = norm st2" by auto
  from bd2 [unfolded T'] norm_fields [OF nn]
  have f: "\<not> inquote st'" "bracket_level st' = 0" "RootKV st' = T'" "errors st' = []"
    by (simp_all add: boundary_def quiet_def)
  have "ParseString u KeyValues_new out = Returns (True, T', [])"
    using sc f by (simp add: ParseString_def st0_def after_loop_def T'_def)
  moreover have sk: "skeleton_of T' = skeleton_of T"
    using ks' cs' nm by (cases T) (simp add: T'_def)
  moreover have "document_ok T'"
    using ks' cs' n sk by (simp add: document_ok_def T'_def nesting_def)
  ultimately show ?thesis by (auto simp: same_structure_def)
qed

subsection \<open>An abort does not depend on the rest of the input\<close>

lemma take_eq_length: "take (Suc j) s' = take (Suc j) s \<Longrightarrow> j < length s \<Longrightarrow> j < length s'"
proof -
  assume a: "take (Suc j) s' = take (Suc j) s" and b: "j < length s"
  have "length (take (Suc j) s') = length (take (Suc j) s)" using a by simp
  with b show ?thesis by simp
qed

lemma take_eq_nth: "take (Suc j) s' = take (Suc j) s \<Longrightarrow> k \<le> j \<Longrightarrow> s' ! k = s ! k"
proof -
  assume a: "take (Suc j) s' = take (Suc j) s" and b: "k \<le> j"
  have "take (Suc j) s' ! k = s' ! k" "take (Suc j) s ! k = s ! k" using b by simp_all
  with a show ?thesis by simp
qed

lemma skip_space_prefix:
  "take (Suc j) s' = take (Suc j) s \<Longrightarrow> j < length s \<Longrightarrow> skip_space s i < j \<Longrightarrow>
   skip_space s' i = skip_space s i"
proof (induction s i rule: skip_space.induct)
  case (1 string i)
  from take_eq_length [OF "1.prems"(1,2)] have len: "j < length s'" .
  from skip_space_ge [of i string] "1.prems"(3) have ij: "i < j" by simp
  have nth: "s' ! (i + 1) = string ! (i + 1)"
    using ij by (intro take_eq_nth [OF "1.prems"(1)]) simp
  show ?case
  proof (cases "i < length string - 1 \<and> internal_isspace (string ! (i + 1))")
    case True
    then have sk: "skip_space string i = skip_space string (i + 1)"
      by (subst skip_space.simps) simp
    from True nth ij len have "i < length s' - 1 \<and> internal_isspace (s' ! (i + 1))" by auto
    then have "skip_space s' i = skip_space s' (i + 1)"
      by (subst skip_space.simps) simp
    also have "\<dots> = skip_space string (i + 1)"
      using "1.IH" [OF True "1.prems"(1,2)] "1.prems"(3) sk by simp
    finally show ?thesis using sk by simp
  next
    case False
    then have sk: "skip_space string i = i" by (subst skip_space.simps) auto
    from ij "1.prems"(2) have "i < length string - 1" by simp
    with False nth have "\<not> internal_isspace (s' ! (i + 1))" by simp
    then have "skip_space s' i = i" by (subst skip_space.simps) auto
    with sk show ?thesis by simp
  qed
qed

lemma handle_char_space_branch:
  assumes "internal_isspace c" "c \<noteq> CHR 0x0A" "\<not> inquote st" "\<not> incomment st"
  shows "handle_char s i c st =
     bind_outcome
       (if buf st \<noteq> [] then save_token (Some False) (st\<lparr>inquote := False\<rparr>) else Returns st)
       (\<lambda>st1. Returns (Continue (skip_space s i) st1))"
proof -
  from assms(1) have "c \<noteq> CHR ''/''" "c \<noteq> CHR 0x22" "c \<noteq> CHR ''{''" "c \<noteq> CHR ''}''"
    by (auto simp: internal_isspace_def)
  with assms show ?thesis by (simp add: handle_char_def)
qed

lemma if_else_cong: "(\<not> b \<Longrightarrow> y = y') \<Longrightarrow> (if b then x else y) = (if b then x else y')"
  by simp

lemma handle_char_no_space_branch:
  assumes "\<not> (internal_isspace c \<and> c \<noteq> CHR 0x0A \<and> \<not> inquote st \<and> \<not> incomment st)"
  shows "handle_char s' i c st = handle_char s i c st"
  unfolding handle_char_def
  by (intro if_else_cong) (use assms in blast)

lemma handle_char_other_string:
  assumes "handle_char s i c st = Returns (Continue k st1)"
    and "k = skip_space s i \<longrightarrow> skip_space s' i = skip_space s i"
  shows "handle_char s' i c st = Returns (Continue k st1)"
proof (cases "internal_isspace c \<and> c \<noteq> CHR 0x0A \<and> \<not> inquote st \<and> \<not> incomment st")
  case True
  then have sp: "internal_isspace c" "c \<noteq> CHR 0x0A" "\<not> inquote st" "\<not> incomment st"
    by simp_all
  from assms(1) have "k = skip_space s i"
    unfolding handle_char_space_branch [OF sp] by (auto simp: bind_outcome_Returns)
  with assms show ?thesis
    unfolding handle_char_space_branch [OF sp] by simp
next
  case False
  from handle_char_no_space_branch [OF False, of s' i s] assms(1) show ?thesis by simp
qed

lemma loop_body_prefix:
  assumes tk: "take (Suc j) s' = take (Suc j) s" and j: "j < length s"
    and lb: "loop_body s i st = Returns (Continue k st1)" and ik: "i \<le> k" and kj: "k < j"
  shows "loop_body s' i st = Returns (Continue k st1)"
proof -
  from take_eq_length [OF tk j] have j': "j < length s'" .
  from ik kj have ij: "i < j" by simp
  have c: "s' ! i = s ! i" using ij by (intro take_eq_nth [OF tk]) simp
  have p: "s' ! (i - 1) = s ! (i - 1)" using ij by (intro take_eq_nth [OF tk]) simp
  have n: "s' ! (i + 1) = s ! (i + 1)" using ij by (intro take_eq_nth [OF tk]) simp
  have l: "i < length s - 1" "i < length s' - 1" using ij j j' by simp_all
  have sk: "k = skip_space s i \<longrightarrow> skip_space s' i = skip_space s i"
    using skip_space_prefix [OF tk j, of i] kj by simp
  have eq: "st\<lparr>pc := (if i > 0 then s' ! (i - 1) else pc st),
                nc := (if i < length s' - 1 then s' ! (i + 1) else nc st)\<rparr>
          = st\<lparr>pc := (if i > 0 then s ! (i - 1) else pc st),
                nc := (if i < length s - 1 then s ! (i + 1) else nc st)\<rparr>"
    using p n l by simp
  from handle_char_other_string [OF lb [unfolded loop_body_handle] sk]
  show ?thesis
    unfolding loop_body_handle eq c .
qed

lemma loop_body_abort_prefix:
  assumes tk: "take (Suc i) s' = take (Suc i) s" and i: "i < length s"
    and lb: "loop_body s i st = Returns (Return_false st')"
  shows "\<exists>st''. loop_body s' i st = Returns (Return_false st'') \<and>
           RootKV st'' = RootKV st' \<and> errors st'' = errors st'"
proof -
  have c: "s' ! i = s ! i" by (intro take_eq_nth [OF tk]) simp
  from lb show ?thesis
    unfolding loop_body_handle handle_char_Return_false c
    by (auto simp: ReportError_def)
qed

lemma scan_abort_prefix:
  "scan s i st = Returns (Returned_false st') \<Longrightarrow>
   \<exists>j. i \<le> j \<and> j < length s \<and>
     (\<forall>s'. take (Suc j) s' = take (Suc j) s \<longrightarrow>
        (\<exists>st''. scan s' i st = Returns (Returned_false st'') \<and>
           RootKV st'' = RootKV st' \<and> errors st'' = errors st'))"
proof (induction s i st rule: scan.induct)
  case (1 string i st)
  show ?case
  proof (cases "i < length string")
    case False
    with "1.prems" have False by (simp add: scan.simps)
    then show ?thesis ..
  next
    case True
    show ?thesis
    proof (cases "loop_body string i st")
      case (Undefined u)
      with True "1.prems" have False by (simp add: scan.simps)
      then show ?thesis ..
    next
      case (Returns r)
      show ?thesis
      proof (cases r)
        case (Return_false st1)
        with Returns True "1.prems" have e: "st' = st1" by (simp add: scan.simps)
        have "\<exists>st''. scan s' i st = Returns (Returned_false st'') \<and>
                RootKV st'' = RootKV st' \<and> errors st'' = errors st'"
          if tk: "take (Suc i) s' = take (Suc i) string" for s'
        proof -
          from loop_body_abort_prefix [OF tk True] Returns Return_false e obtain st'' where
            "loop_body s' i st = Returns (Return_false st'')"
            "RootKV st'' = RootKV st'" "errors st'' = errors st'" by auto
          with take_eq_length [OF tk True] show ?thesis
            by (subst scan.simps) simp
        qed
        with True show ?thesis by blast
      next
        case (Continue k st1)
        with Returns True "1.prems" have lt: "\<not> 2147483647 \<le> k"
          and sc: "scan string (k + 1) (st1\<lparr>nchar := nchar st1 + 1\<rparr>) = Returns (Returned_false st')"
          by (auto simp: scan.simps split: if_splits)
        from "1.IH" [OF True Returns Continue lt sc] obtain j where
          j: "k + 1 \<le> j" "j < length string"
          and all: "\<forall>s'. take (Suc j) s' = take (Suc j) string \<longrightarrow>
            (\<exists>st''. scan s' (k + 1) (st1\<lparr>nchar := nchar st1 + 1\<rparr>) = Returns (Returned_false st'') \<and>
               RootKV st'' = RootKV st' \<and> errors st'' = errors st')" by blast
        from loop_body_advances Returns Continue have ik: "i \<le> k" by simp
        have "\<exists>st''. scan s' i st = Returns (Returned_false st'') \<and>
                RootKV st'' = RootKV st' \<and> errors st'' = errors st'"
          if tk: "take (Suc j) s' = take (Suc j) string" for s'
        proof -
          from j have kj: "k < j" by simp
          from Returns Continue have "loop_body string i st = Returns (Continue k st1)" by simp
          from loop_body_prefix [OF tk j(2) this ik kj]
          have lb': "loop_body s' i st = Returns (Continue k st1)" .
          from take_eq_length [OF tk j(2)] ik kj have "i < length s'" by simp
          with lb' lt have "scan s' i st = scan s' (k + 1) (st1\<lparr>nchar := nchar st1 + 1\<rparr>)"
            by (subst scan.simps) simp
          with all tk show ?thesis by simp
        qed
        with j ik show ?thesis by (intro exI [of _ j]) auto
      qed
    qed
  qed
qed

section \<open>The claims\<close>

subsection \<open>Typed getters\<close>

text \<open>
  Entry level: once \<^verbatim>\<open>ReadInt\<close> has succeeded on an entry, a second
  \<^verbatim>\<open>ReadInt\<close> on that entry returns the cached number whatever the string and
  \<^verbatim>\<open>errno\<close> have become.
\<close>

lemma ReadInt_reads_cache:
  "ReadInt e errno = (v, True, e', errno') \<Longrightarrow>
   ReadInt (e'\<lparr>kvalue := s\<rparr>) errno2 = (v, True, e'\<lparr>kvalue := s\<rparr>, errno2)"
  by (auto simp: ReadInt_def Let_def split: ELastCached.splits option.splits prod.splits
        if_splits)

text \<open>
  C1. The getters return the first matching entry read as the requested type, and the
  default when the value does not parse, in particular when it is empty. The code does
  not do this for \<^verbatim>\<open>GetInt\<close>: \<^verbatim>\<open>ReadInt\<close> takes \<^verbatim>\<open>errno == 0\<close> after
  \<^verbatim>\<open>strtol\<close> for success, and \<^verbatim>\<open>strtol\<close> leaves \<^verbatim>\<open>errno\<close> alone when it
  finds no digit. On an entry whose value is empty, and on one whose value is
  \<^verbatim>\<open>abc\<close>, with \<^verbatim>\<open>errno = 0\<close> before the call, \<^verbatim>\<open>GetInt\<close> returns 0
  whatever the default \<open>d\<close> is.
\<close>

theorem GetInt_unparsable_value_returns_zero:
  "fst (GetInt (KeyValues None True False
          [\<lparr>key = Some ''k'', kvalue = Some [], cached = Cached_NONE, kquoted = True\<rparr>] [])
        ''k'' d 0) = 0 \<and>
   fst (GetInt (KeyValues None True False
          [\<lparr>key = Some ''k'', kvalue = Some ''abc'', cached = Cached_NONE, kquoted = True\<rparr>] [])
        ''k'' d 0) = 0"
  by (simp add: GetInt_def ReadInt_def strtol_def c_isspace_def c_isdigit_def)

text \<open>
  C2. A first successful typed read fills the cache of the entry, and a second read
  of the same type returns the cached value although the string no longer parses. The
  code does not do this through \<^verbatim>\<open>GetInt\<close>: the getter reads a copy of the entry,
  so after a successful \<^verbatim>\<open>GetInt\<close> on the value \<^verbatim>\<open>12\<close> the section is
  unchanged, its entry still has no cache, and once the string is \<^verbatim>\<open>x\<close> the same
  call returns 0, not 12.
\<close>

theorem GetInt_leaves_cache_empty:
  "GetInt (KeyValues None True False
      [\<lparr>key = Some ''k'', kvalue = Some ''12'', cached = Cached_NONE, kquoted = True\<rparr>] [])
     ''k'' d 0 =
   (12, KeyValues None True False
      [\<lparr>key = Some ''k'', kvalue = Some ''12'', cached = Cached_NONE, kquoted = True\<rparr>] [], 0)
   \<and>
   fst (GetInt (keys_update (map (\<lambda>e. e\<lparr>kvalue := Some ''x''\<rparr>))
      (KeyValues None True False
        [\<lparr>key = Some ''k'', kvalue = Some ''12'', cached = Cached_NONE, kquoted = True\<rparr>] []))
     ''k'' d 0) = 0"
  by (simp add: GetInt_def ReadInt_def strtol_def c_isspace_def c_isdigit_def keys_update_def)

subsection \<open>Setters and removal\<close>

text \<open>
  C4, as the claim has it, fails: \<^verbatim>\<open>SetInt\<close> on the key \<^verbatim>\<open>k\<close> of
  \<open>two_entries\<close> leaves the string values of the section as they were (the value of
  \<^verbatim>\<open>k\<close> is still \<^verbatim>\<open>5\<close>, and \<^verbatim>\<open>GetString\<close> returns it).
\<close>

theorem SetInt_keeps_string_value:
  "map kvalue (keys (SetInt two_entries ''k'' 7)) = map kvalue (keys two_entries) \<and>
   GetString (SetInt two_entries ''k'' 7) ''k'' None = Some ''5''"
  by (simp add: SetInt_def GetString_def keys_update_def two_entries_def)

text \<open>
  C4, amended. When no entry has the key, each setter leaves the section as it is.
  Otherwise, at the first entry \<open>e\<close> whose key matches, \<^verbatim>\<open>SetBool\<close>,
  \<^verbatim>\<open>SetInt\<close> and \<^verbatim>\<open>SetFloat\<close> overwrite the cache only (kind and number; the
  string value stays), and \<^verbatim>\<open>SetString\<close> overwrites the string value and empties
  the cache; every other entry and the rest of the section stay as they are.
\<close>

theorem setters_write_first_match:
  "((\<forall>e\<in>set (keys this). key e \<noteq> Some k) \<longrightarrow>
      SetBool this k b = this \<and> SetInt this k i = this \<and>
      SetFloat this k f = this \<and> SetString this k s = this) \<and>
   (\<forall>xs e ys. keys this = xs @ e # ys \<and> key e = Some k \<and> (\<forall>x\<in>set xs. key x \<noteq> Some k) \<longrightarrow>
      SetBool this k b = keys_update (\<lambda>ks. xs @ e\<lparr>cached := Cached_BOOL b\<rparr> # ys) this \<and>
      SetInt this k i = keys_update (\<lambda>ks. xs @ e\<lparr>cached := Cached_INT (scast i)\<rparr> # ys) this \<and>
      SetFloat this k f = keys_update (\<lambda>ks. xs @ e\<lparr>cached := Cached_FLOAT f\<rparr> # ys) this \<and>
      SetString this k s =
        keys_update (\<lambda>ks. xs @ e\<lparr>cached := Cached_NONE, kvalue := Some s\<rparr> # ys) this)"
proof (intro conjI impI allI)
  assume none: "\<forall>e\<in>set (keys this). key e \<noteq> Some k"
  show "SetBool this k b = this"
    unfolding SetBool_def by (rule keys_update_same) (rule SetBool_loop_none [OF none])
  show "SetInt this k i = this"
    unfolding SetInt_def by (rule keys_update_same) (rule SetInt_loop_none [OF none])
  show "SetFloat this k f = this"
    unfolding SetFloat_def by (rule keys_update_same) (rule SetFloat_loop_none [OF none])
  show "SetString this k s = this"
    unfolding SetString_def by (rule keys_update_same) (rule SetString_loop_none [OF none])
next
  fix xs e ys
  assume h: "keys this = xs @ e # ys \<and> key e = Some k \<and> (\<forall>x\<in>set xs. key x \<noteq> Some k)"
  then have ks: "keys this = xs @ e # ys" and e: "key e = Some k"
    and xs: "\<forall>x\<in>set xs. key x \<noteq> Some k" by simp_all
  show "SetBool this k b = keys_update (\<lambda>ks. xs @ e\<lparr>cached := Cached_BOOL b\<rparr> # ys) this"
    by (simp add: SetBool_def keys_update_def ks SetBool_loop_first [OF xs e])
  show "SetInt this k i = keys_update (\<lambda>ks. xs @ e\<lparr>cached := Cached_INT (scast i)\<rparr> # ys) this"
    by (simp add: SetInt_def keys_update_def ks SetInt_loop_first [OF xs e])
  show "SetFloat this k f = keys_update (\<lambda>ks. xs @ e\<lparr>cached := Cached_FLOAT f\<rparr> # ys) this"
    by (simp add: SetFloat_def keys_update_def ks SetFloat_loop_first [OF xs e])
  show "SetString this k s =
      keys_update (\<lambda>ks. xs @ e\<lparr>cached := Cached_NONE, kvalue := Some s\<rparr> # ys) this"
    by (simp add: SetString_def keys_update_def ks SetString_loop_first [OF xs e])
qed

theorem setters_write_first_match_witness:
  "SetInt two_entries ''zz'' 7 = two_entries \<and>
   SetInt two_entries ''k'' 7 = KeyValues None True False
     [\<lparr>key = Some ''a'', kvalue = Some ''k'', cached = Cached_NONE, kquoted = False\<rparr>,
      \<lparr>key = Some ''k'', kvalue = Some ''5'', cached = Cached_INT 7, kquoted = False\<rparr>] [] \<and>
   SetString two_entries ''k'' ''x'' = KeyValues None True False
     [\<lparr>key = Some ''a'', kvalue = Some ''k'', cached = Cached_NONE, kquoted = False\<rparr>,
      \<lparr>key = Some ''k'', kvalue = Some ''x'', cached = Cached_NONE, kquoted = False\<rparr>] []"
proof -
  have none: "\<forall>e\<in>set (keys two_entries). key e \<noteq> Some ''zz''"
    by (simp add: two_entries_def)
  have first: "keys two_entries =
      [\<lparr>key = Some ''a'', kvalue = Some ''k'', cached = Cached_NONE, kquoted = False\<rparr>] @
      \<lparr>key = Some ''k'', kvalue = Some ''5'', cached = Cached_NONE, kquoted = False\<rparr> # [] \<and>
      key \<lparr>key = Some ''k'', kvalue = Some ''5'', cached = Cached_NONE, kquoted = False\<rparr>
        = Some ''k'' \<and>
      (\<forall>x\<in>set [\<lparr>key = Some ''a'', kvalue = Some ''k'', cached = Cached_NONE, kquoted = False\<rparr>].
         key x \<noteq> Some ''k'')"
    by (simp add: two_entries_def)
  from setters_write_first_match [of two_entries "''zz''" True 7 0 "[]"] none
  have a: "SetInt two_entries ''zz'' 7 = two_entries" by blast
  from setters_write_first_match [of two_entries "''k''" True 7 0 "''x''"] first
  have b: "SetInt two_entries ''k'' 7 = keys_update (\<lambda>ks.
      [\<lparr>key = Some ''a'', kvalue = Some ''k'', cached = Cached_NONE, kquoted = False\<rparr>] @
      \<lparr>key = Some ''k'', kvalue = Some ''5'', cached = Cached_NONE, kquoted = False\<rparr>
        \<lparr>cached := Cached_INT (scast (7::cint))\<rparr> # []) two_entries"
   and c: "SetString two_entries ''k'' ''x'' = keys_update (\<lambda>ks.
      [\<lparr>key = Some ''a'', kvalue = Some ''k'', cached = Cached_NONE, kquoted = False\<rparr>] @
      \<lparr>key = Some ''k'', kvalue = Some ''5'', cached = Cached_NONE, kquoted = False\<rparr>
        \<lparr>cached := Cached_NONE, kvalue := Some ''x''\<rparr> # []) two_entries"
    by blast+
  show ?thesis
    unfolding a b c by (simp add: keys_update_def two_entries_def)
qed

text \<open>
  C5. \<^verbatim>\<open>RemoveKey(k)\<close> removes the first entry whose value field equals \<open>k\<close> and
  keeps the other entries in their order; when no entry has the value \<open>k\<close> the section
  is unchanged.
\<close>

theorem RemoveKey_removes_first_by_value:
  "((\<forall>e\<in>set (keys this). kvalue e \<noteq> Some k) \<longrightarrow> RemoveKey this k = this) \<and>
   (\<forall>xs e ys. keys this = xs @ e # ys \<and> kvalue e = Some k \<and>
       (\<forall>x\<in>set xs. kvalue x \<noteq> Some k) \<longrightarrow>
      RemoveKey this k = keys_update (\<lambda>ks. xs @ ys) this)"
proof (intro conjI impI allI)
  assume none: "\<forall>e\<in>set (keys this). kvalue e \<noteq> Some k"
  show "RemoveKey this k = this"
    unfolding RemoveKey_def by (rule keys_update_same) (rule RemoveKey_loop_none [OF none])
next
  fix xs e ys
  assume h: "keys this = xs @ e # ys \<and> kvalue e = Some k \<and> (\<forall>x\<in>set xs. kvalue x \<noteq> Some k)"
  then have ks: "keys this = xs @ e # ys" and e: "kvalue e = Some k"
    and xs: "\<forall>x\<in>set xs. kvalue x \<noteq> Some k" by simp_all
  show "RemoveKey this k = keys_update (\<lambda>ks. xs @ ys) this"
    by (simp add: RemoveKey_def keys_update_def ks RemoveKey_loop_first [OF xs e])
qed

theorem RemoveKey_removes_first_by_value_witness:
  "RemoveKey two_entries ''zz'' = two_entries \<and>
   RemoveKey two_entries ''k'' = KeyValues None True False
     [\<lparr>key = Some ''k'', kvalue = Some ''5'', cached = Cached_NONE, kquoted = False\<rparr>] []"
proof -
  have none: "\<forall>e\<in>set (keys two_entries). kvalue e \<noteq> Some ''zz''"
    by (simp add: two_entries_def)
  have first: "keys two_entries = [] @
      \<lparr>key = Some ''a'', kvalue = Some ''k'', cached = Cached_NONE, kquoted = False\<rparr> #
      [\<lparr>key = Some ''k'', kvalue = Some ''5'', cached = Cached_NONE, kquoted = False\<rparr>] \<and>
      kvalue \<lparr>key = Some ''a'', kvalue = Some ''k'', cached = Cached_NONE, kquoted = False\<rparr>
        = Some ''k'' \<and>
      (\<forall>x\<in>set []. kvalue x \<noteq> Some ''k'')"
    by (simp add: two_entries_def)
  from RemoveKey_removes_first_by_value [of two_entries "''zz''"] none
  have a: "RemoveKey two_entries ''zz'' = two_entries" by blast
  from RemoveKey_removes_first_by_value [of two_entries "''k''"] first
  have b: "RemoveKey two_entries ''k'' = keys_update (\<lambda>ks. [] @
      [\<lparr>key = Some ''k'', kvalue = Some ''5'', cached = Cached_NONE, kquoted = False\<rparr>])
      two_entries"
    by blast
  show ?thesis
    unfolding a b by (simp add: keys_update_def two_entries_def)
qed

subsection \<open>Errors of the scanner\<close>

text \<open>
  C6, as the claim has it, fails: the characters of a comment are discarded before the
  brace is looked at, so an opening brace outside quotes with no pending key and an
  empty buffer reports nothing when it stands in a comment. The text \<^verbatim>\<open>//{\<close>
  parses without an error.
\<close>

theorem brace_in_comment_is_no_error:
  "ParseString some_garbage KeyValues_new ''//{'' =
     Returns (True, KeyValues None True False [] [], [])"
  by (simp add: parse_eval some_garbage_def)

text \<open>
  C6, amended. One iteration of the loop, at the character \<open>string ! i\<close> with the
  locals \<open>st\<close>, leaves the method with \<^verbatim>\<open>return false\<close> in exactly two cases: the
  character is a newline and \<open>st\<close> is inside a quote, or it is an opening brace outside
  quotes and outside a comment with neither a pending key nor a token in the buffer.
  The iteration then reports \<^verbatim>\<open>MISSING_QUOTE\<close>, respectively
  \<^verbatim>\<open>UNNAMED_SECTION\<close>, at the current line and column, clears the validity flag and
  ends the scan there. A call of \<^verbatim>\<open>ParseString\<close> that leaves this way returns false
  with the tree built so far, the flag cleared and that one error, and it returns the
  same for every input that agrees with \<open>string\<close> up to the character of the abort:
  nothing after it is scanned.
\<close>

theorem abort_exactly_on_two_errors:
  "(i < length string \<longrightarrow>
      ((\<exists>st'. loop_body string i st = Returns (Return_false st')) \<longleftrightarrow>
         (string ! i = CHR 0x0A \<and> inquote st) \<or>
         (string ! i = CHR ''{'' \<and> \<not> inquote st \<and> \<not> incomment st \<and> \<not> parsed_key st \<and>
          buf st = [])) \<and>
      (\<forall>st'. loop_body string i st = Returns (Return_false st') \<longrightarrow>
         scan string i st = Returns (Returned_false st') \<and>
         errors st' = errors st @
           [(nline st, nchar st,
             if string ! i = CHR 0x0A then MISSING_QUOTE else UNNAMED_SECTION)] \<and>
         RootKV st' = good_update False (RootKV st))) \<and>
   (\<forall>st'. scan string 0 (initial_state u this) = Returns (Returned_false st') \<longrightarrow>
      ParseString u this string = Returns (False, RootKV st', errors st') \<and>
      \<not> good (RootKV st') \<and>
      (\<exists>l c k. errors st' = [(l, c, k)] \<and> (k = MISSING_QUOTE \<or> k = UNNAMED_SECTION)) \<and>
      (\<exists>j<length string. \<forall>rest.
         ParseString u this (take (Suc j) string @ rest) =
           Returns (False, RootKV st', errors st')))"
proof (intro conjI impI allI)
  assume i: "i < length string"
  show "(\<exists>st'. loop_body string i st = Returns (Return_false st')) \<longleftrightarrow>
         (string ! i = CHR 0x0A \<and> inquote st) \<or>
         (string ! i = CHR ''{'' \<and> \<not> inquote st \<and> \<not> incomment st \<and> \<not> parsed_key st \<and>
          buf st = [])"
    unfolding loop_body_handle handle_char_Return_false by auto
next
  fix st'
  assume i: "i < length string" and lb: "loop_body string i st = Returns (Return_false st')"
  from i lb show "scan string i st = Returns (Returned_false st')"
    by (subst scan.simps) simp
  from lb show "errors st' = errors st @
           [(nline st, nchar st,
             if string ! i = CHR 0x0A then MISSING_QUOTE else UNNAMED_SECTION)]"
    unfolding loop_body_handle handle_char_Return_false
    by (auto simp: ReportError_def)
  from lb show "RootKV st' = good_update False (RootKV st)"
    unfolding loop_body_handle handle_char_Return_false
    by (auto simp: ReportError_def)
next
  fix st'
  assume sc: "scan string 0 (initial_state u this) = Returns (Returned_false st')"
  then show p: "ParseString u this string = Returns (False, RootKV st', errors st')"
    by (simp add: ParseString_def)
  from scan_scanning [OF sc initial_scanning]
  show "\<not> good (RootKV st')"
    and "\<exists>l c k. errors st' = [(l, c, k)] \<and> (k = MISSING_QUOTE \<or> k = UNNAMED_SECTION)"
    by simp_all
  from scan_abort_prefix [OF sc] obtain j where j: "j < length string"
    and all: "\<forall>s'. take (Suc j) s' = take (Suc j) string \<longrightarrow>
        (\<exists>st''. scan s' 0 (initial_state u this) = Returns (Returned_false st'') \<and>
           RootKV st'' = RootKV st' \<and> errors st'' = errors st')" by blast
  have "ParseString u this (take (Suc j) string @ rest) =
           Returns (False, RootKV st', errors st')" for rest
  proof -
    have "take (Suc j) (take (Suc j) string @ rest) = take (Suc j) string"
      using j by simp
    with all obtain st'' where
      "scan (take (Suc j) string @ rest) 0 (initial_state u this) = Returns (Returned_false st'')"
      "RootKV st'' = RootKV st'" "errors st'' = errors st'" by blast
    then show ?thesis by (simp add: ParseString_def)
  qed
  with j show "\<exists>j<length string. \<forall>rest.
         ParseString u this (take (Suc j) string @ rest) =
           Returns (False, RootKV st', errors st')" by blast
qed

theorem abort_exactly_on_two_errors_witness:
  "ParseString some_garbage KeyValues_new ''a b { c d'' =
     Returns (False,
       KeyValues None False False
         [\<lparr>key = Some ''a'', kvalue = Some ''b'', cached = Cached_NONE, kquoted = False\<rparr>] [],
       [(0, 4, UNNAMED_SECTION)]) \<and>
   (\<exists>j<length ''a b { c d''. \<forall>rest.
      ParseString some_garbage KeyValues_new (take (Suc j) ''a b { c d'' @ rest) =
        Returns (False,
          KeyValues None False False
            [\<lparr>key = Some ''a'', kvalue = Some ''b'', cached = Cached_NONE, kquoted = False\<rparr>] [],
          [(0, 4, UNNAMED_SECTION)]))"
proof -
  have "\<exists>st'. scan ''a b { c d'' 0 (initial_state some_garbage KeyValues_new) =
          Returns (Returned_false st') \<and>
        RootKV st' = KeyValues None False False
          [\<lparr>key = Some ''a'', kvalue = Some ''b'', cached = Cached_NONE, kquoted = False\<rparr>] [] \<and>
        errors st' = [(0, 4, UNNAMED_SECTION)]"
    by (simp add: parse_eval some_garbage_def)
  then obtain st' where
    sc: "scan ''a b { c d'' 0 (initial_state some_garbage KeyValues_new) =
          Returns (Returned_false st')"
    and r: "RootKV st' = KeyValues None False False
          [\<lparr>key = Some ''a'', kvalue = Some ''b'', cached = Cached_NONE, kquoted = False\<rparr>] []"
      "errors st' = [(0, 4, UNNAMED_SECTION)]"
    by blast
  from abort_exactly_on_two_errors [of 0 "''a b { c d''"
      "initial_state some_garbage KeyValues_new" some_garbage KeyValues_new] sc
  have "ParseString some_garbage KeyValues_new ''a b { c d'' =
          Returns (False, RootKV st', errors st')"
    and "\<exists>j<length ''a b { c d''. \<forall>rest.
      ParseString some_garbage KeyValues_new (take (Suc j) ''a b { c d'' @ rest) =
        Returns (False, RootKV st', errors st')"
    by blast+
  then show ?thesis unfolding r by simp
qed

text \<open>
  C7. When the loop reaches the end of the input with the locals \<open>st\<close>:
  \<^verbatim>\<open>MISSING_QUOTE\<close> is reported when \<open>st\<close> is inside a quote, then
  \<^verbatim>\<open>UNTERMINATED_SECTION\<close> when sections are still open; the call returns whether
  neither was the case, and the document it leaves is the tree built by the loop with
  the validity flag set to that answer. Every call of \<^verbatim>\<open>ReportError\<close> clears the
  flag. Nothing the loop has committed is lost: the returned document extends the tree
  the loop held after any number \<open>n\<close> of iterations (same names, its entries first
  among the entries, its sections first among the sections, at every depth). And what
  is committed is in that tree: the iteration \<open>n + 1\<close> that completes an entry (a key
  was pending, none is afterwards, the depth is the same) has appended the entry, with
  the pending key and the token of the buffer as its value, to the entries of the current
  section; the iteration that opens a section has appended a new section without
  entries and children, named by the pending key or else by the buffer, to the children
  of the current section, and has made it the current section.
\<close>

theorem end_of_input_errors:
  assumes "scan string 0 (initial_state u this) = Returns (Loop_done st)"
  shows "ParseString u this string =
           Returns ((\<not> inquote st \<and> stackpos st = 0),
                    good_update (\<not> inquote st \<and> stackpos st = 0) (RootKV st),
                    (if inquote st then [(- 1, 0, MISSING_QUOTE)] else []) @
                    (if 0 < stackpos st then [(- 1, 0, UNTERMINATED_SECTION)] else []))
         \<and> \<not> good (RootKV (ReportError l c e st0))
         \<and> (\<forall>n i s. after_iterations n string 0 (initial_state u this) = Some (i, s) \<longrightarrow>
               extends (RootKV s)
                 (good_update (\<not> inquote st \<and> stackpos st = 0) (RootKV st)) \<and>
               (\<forall>i' s'. after_iterations (Suc n) string 0 (initial_state u this) = Some (i', s') \<longrightarrow>
                  (parsed_key s \<and> \<not> parsed_key s' \<and> stackpos s' = stackpos s \<longrightarrow>
                     entry_committed s s') \<and>
                  (stackpos s' = Suc (stackpos s) \<longrightarrow> section_committed s s')))"
proof -
  from scan_scanning [OF assms initial_scanning] have "scanning st" by simp
  then have a: "errors st = []" "good (RootKV st)" "bracket_level st = int (stackpos st)"
    by (simp_all add: scanning_def)
  have b: "good_update True (RootKV st) = RootKV st"
    using a(2) by (cases "RootKV st") (simp add: good_update_def)
  have ok0: "stack_ok (stackpos (initial_state u this)) (RootKV (initial_state u this))"
    by (simp add: initial_state_def)
  have 1: "ParseString u this string =
           Returns ((\<not> inquote st \<and> stackpos st = 0),
                    good_update (\<not> inquote st \<and> stackpos st = 0) (RootKV st),
                    (if inquote st then [(- 1, 0, MISSING_QUOTE)] else []) @
                    (if 0 < stackpos st then [(- 1, 0, UNTERMINATED_SECTION)] else []))"
    using a b by (simp add: ParseString_def assms after_loop_def ReportError_def good_update_def)
  have 2: "\<not> good (RootKV (ReportError l c e st0))"
    by (simp add: ReportError_def good_update_def)
  have 3: "extends (RootKV s) (good_update (\<not> inquote st \<and> stackpos st = 0) (RootKV st)) \<and>
       (\<forall>i' s'. after_iterations (Suc n) string 0 (initial_state u this) = Some (i', s') \<longrightarrow>
          (parsed_key s \<and> \<not> parsed_key s' \<and> stackpos s' = stackpos s \<longrightarrow>
             entry_committed s s') \<and>
          (stackpos s' = Suc (stackpos s) \<longrightarrow> section_committed s s'))"
    if it: "after_iterations n string 0 (initial_state u this) = Some (i, s)" for n i s
  proof (intro conjI allI impI)
    from after_iterations_stack_ok [OF it ok0] have ok: "stack_ok (stackpos s) (RootKV s)" .
    from after_iterations_scan [OF it] assms have "scan string i s = Returns (Loop_done st)"
      by simp
    from scan_extends [OF this ok]
    show "extends (RootKV s) (good_update (\<not> inquote st \<and> stackpos st = 0) (RootKV st))"
      by (simp add: extends_good_update)
    fix i' s'
    assume "after_iterations (Suc n) string 0 (initial_state u this) = Some (i', s')"
    from after_iterations_Suc [OF this] it obtain j s1 where
      lb: "loop_body string i s = Returns (Continue j s1)"
      and s': "s' = s1\<lparr>nchar := nchar s1 + 1\<rparr>" by auto
    from loop_body_commits [OF lb ok] have c: "commits s s'" by (simp add: s')
    {
      assume "parsed_key s \<and> \<not> parsed_key s' \<and> stackpos s' = stackpos s"
      with c show "entry_committed s s'" by (simp add: commits_def)
    }
    {
      assume "stackpos s' = Suc (stackpos s)"
      with c show "section_committed s s'" by (simp add: commits_def)
    }
  qed
  from 1 2 3 show ?thesis by blast
qed

theorem end_of_input_errors_witness:
  "ParseString some_garbage KeyValues_new (''a b c { d e '' @ [CHR 0x22] @ ''f'') =
     Returns (False,
       KeyValues None False False
         [\<lparr>key = Some ''a'', kvalue = Some ''b'', cached = Cached_NONE, kquoted = False\<rparr>]
         [KeyValues (Some ''c'') True False
            [\<lparr>key = Some ''d'', kvalue = Some ''e'', cached = Cached_NONE, kquoted = False\<rparr>]
            []],
       [(- 1, 0, MISSING_QUOTE), (- 1, 0, UNTERMINATED_SECTION)]) \<and>
   extends
     (KeyValues None True False
        [\<lparr>key = Some ''a'', kvalue = Some ''b'', cached = Cached_NONE, kquoted = False\<rparr>]
        [KeyValues (Some ''c'') True False [] []])
     (KeyValues None False False
        [\<lparr>key = Some ''a'', kvalue = Some ''b'', cached = Cached_NONE, kquoted = False\<rparr>]
        [KeyValues (Some ''c'') True False
           [\<lparr>key = Some ''d'', kvalue = Some ''e'', cached = Cached_NONE, kquoted = False\<rparr>]
           []])"
proof -
  have "\<exists>st. scan (''a b c { d e '' @ [CHR 0x22] @ ''f'') 0
          (initial_state some_garbage KeyValues_new) = Returns (Loop_done st) \<and>
        inquote st \<and> stackpos st = 1 \<and>
        RootKV st = KeyValues None True False
          [\<lparr>key = Some ''a'', kvalue = Some ''b'', cached = Cached_NONE, kquoted = False\<rparr>]
          [KeyValues (Some ''c'') True False
             [\<lparr>key = Some ''d'', kvalue = Some ''e'', cached = Cached_NONE, kquoted = False\<rparr>]
             []]"
    by (simp add: parse_eval some_garbage_def)
  then obtain st where
    sc: "scan (''a b c { d e '' @ [CHR 0x22] @ ''f'') 0
          (initial_state some_garbage KeyValues_new) = Returns (Loop_done st)"
    and st: "inquote st" "stackpos st = 1"
      "RootKV st = KeyValues None True False
          [\<lparr>key = Some ''a'', kvalue = Some ''b'', cached = Cached_NONE, kquoted = False\<rparr>]
          [KeyValues (Some ''c'') True False
             [\<lparr>key = Some ''d'', kvalue = Some ''e'', cached = Cached_NONE, kquoted = False\<rparr>]
             []]"
    by blast
  have "\<exists>s. after_iterations (Suc (Suc (Suc (Suc (Suc (Suc (Suc 0)))))))
          (''a b c { d e '' @ [CHR 0x22] @ ''f'') 0
          (initial_state some_garbage KeyValues_new) = Some (7, s) \<and>
        RootKV s = KeyValues None True False
          [\<lparr>key = Some ''a'', kvalue = Some ''b'', cached = Cached_NONE, kquoted = False\<rparr>]
          [KeyValues (Some ''c'') True False [] []]"
    by (simp add: parse_eval some_garbage_def)
  then obtain s where
    it: "after_iterations (Suc (Suc (Suc (Suc (Suc (Suc (Suc 0)))))))
          (''a b c { d e '' @ [CHR 0x22] @ ''f'') 0
          (initial_state some_garbage KeyValues_new) = Some (7, s)"
    and s: "RootKV s = KeyValues None True False
          [\<lparr>key = Some ''a'', kvalue = Some ''b'', cached = Cached_NONE, kquoted = False\<rparr>]
          [KeyValues (Some ''c'') True False [] []]"
    by blast
  from end_of_input_errors [OF sc]
  have p: "ParseString some_garbage KeyValues_new (''a b c { d e '' @ [CHR 0x22] @ ''f'') =
           Returns ((\<not> inquote st \<and> stackpos st = 0),
                    good_update (\<not> inquote st \<and> stackpos st = 0) (RootKV st),
                    (if inquote st then [(- 1, 0, MISSING_QUOTE)] else []) @
                    (if 0 < stackpos st then [(- 1, 0, UNTERMINATED_SECTION)] else []))"
    and e: "\<And>n i s. after_iterations n (''a b c { d e '' @ [CHR 0x22] @ ''f'') 0
               (initial_state some_garbage KeyValues_new) = Some (i, s) \<Longrightarrow>
             extends (RootKV s)
               (good_update (\<not> inquote st \<and> stackpos st = 0) (RootKV st))"
    by blast+
  from p e [OF it] st s show ?thesis by (simp add: good_update_def)
qed

text \<open>
  C8, as the claim has it, fails: \<^verbatim>\<open>ParseString\<close> starts with
  \<^verbatim>\<open>this->good = true\<close>, so a second parse of a document that a first parse left
  invalid makes it valid again.
\<close>

theorem good_reset_by_second_parse:
  "ParseString some_garbage KeyValues_new ''{'' =
     Returns (False, KeyValues None False False [] [], [(0, 0, UNNAMED_SECTION)]) \<and>
   ParseString some_garbage (KeyValues None False False [] []) [] =
     Returns (True, KeyValues None True False [] [], [])"
  by (simp add: parse_eval)

text \<open>
  C8, amended. Within one call of \<^verbatim>\<open>ParseString\<close> the flag goes from true to false
  only: the call sets it at entry, and it returns the flag, which is true exactly when
  no error was reported during the call. The setters, \<^verbatim>\<open>ClearKey\<close> and
  \<^verbatim>\<open>RemoveKey\<close> leave the flag as it is, and \<^verbatim>\<open>GetBool\<close> and \<^verbatim>\<open>GetInt\<close>
  leave the whole section as it is.
\<close>

theorem ParseString_flag_within_call:
  "(ParseString u this string = Returns (ok, this', errs) \<longrightarrow>
      ok = good this' \<and> (good this' \<longleftrightarrow> errs = [])) \<and>
   good (SetBool this k b) = good this \<and> good (SetInt this k i) = good this \<and>
   good (SetFloat this k f) = good this \<and> good (SetString this k s) = good this \<and>
   good (ClearKey this k) = good this \<and> good (RemoveKey this k) = good this \<and>
   snd (GetBool this k b) = this \<and> fst (snd (GetInt this k i errno)) = this"
proof (intro conjI impI)
  assume p: "ParseString u this string = Returns (ok, this', errs)"
  then obtain e where e: "scan string 0 (initial_state u this) = Returns e"
    by (auto simp: ParseString_def bind_outcome_Returns)
  from scan_scanning [OF e initial_scanning] p e
  show "ok = good this'" "good this' \<longleftrightarrow> errs = []"
    by (auto simp: ParseString_def after_loop_def Let_def ReportError_def scanning_def
          good_update_def split: loop_exit.splits if_splits)
qed (simp_all add: SetBool_def SetInt_def SetFloat_def SetString_def ClearKey_def
       RemoveKey_def GetBool_def GetInt_def split: prod.splits)

theorem ParseString_flag_within_call_witness:
  "False = good (KeyValues None False False [] []) \<and>
   good (KeyValues None False False [] []) =
     (([(0, 0, UNNAMED_SECTION)] :: (int \<times> int \<times> EError) list) = [])"
proof -
  have "ParseString some_garbage KeyValues_new ''{'' =
     Returns (False, KeyValues None False False [] [], [(0, 0, UNNAMED_SECTION)])"
    by (simp add: parse_eval)
  with ParseString_flag_within_call [of some_garbage KeyValues_new "''{''" False
      "KeyValues None False False [] []" "[(0, 0, UNNAMED_SECTION)]"]
  show ?thesis by blast
qed

text \<open>
  C9. A closing brace never takes the scanner below the bottom of the section stack.
  The code does not guard the pop: on \<^verbatim>\<open>A { } }\<close> the second \<^verbatim>\<open>}\<close> runs
  \<^verbatim>\<open>stack[--stackpos]\<close> with \<^verbatim>\<open>stackpos = 0\<close> and reads \<^verbatim>\<open>stack[-1]\<close>.
\<close>

theorem extra_close_brace_underflows:
  "ParseString u KeyValues_new ''A { } }'' = Undefined Stack_Underflow"
  by (simp add: parse_eval)

subsection \<open>The static entry points\<close>



subsection \<open>Round trip\<close>

text \<open>
  C3, as the claim has it, fails: a value may hold a newline (\<^verbatim>\<open>SetString\<close> stores
  any string), the serializer writes it between quotes as it is, and the scanner takes
  the newline inside the quotes for a missing quote. The dump of \<open>newline_value\<close>
  parses to an empty, invalid document, which does not have the structure of
  \<open>newline_value\<close>, and whose own dump is empty.
\<close>

theorem newline_in_value_breaks_round_trip:
  "bind_outcome (DumpToStream newline_value) (ParseString some_garbage KeyValues_new) =
     Returns (False, KeyValues None False False [] [], [(0, 4, MISSING_QUOTE)]) \<and>
   DumpToStream (KeyValues None False False [] []) = Returns [] \<and>
   \<not> same_structure (KeyValues None False False [] []) newline_value"
  by (simp add: parse_eval newline_value_def SetString_def DumpToStream_def dump_key_def
        tabs_def same_structure_def)

text \<open>
  C3, amended. For every well-formed document \<open>T\<close> (\<open>document_ok\<close>: unnamed root,
  named sections nested at most 127 deep, tokens of at most 511 characters without
  quote, newline or NUL, unquoted keys and names not empty, without white space or
  brace and without two slashes side by side): the dump of \<open>T\<close> is written, and when
  it has at most \<^verbatim>\<open>INT_MAX\<close> characters and starts no comment at its first
  character (it does not begin with a slash, or the unassigned \<^verbatim>\<open>pc\<close> of the
  scanner holds no slash), parsing it into a new document succeeds, reports no error
  and gives a document \<open>T'\<close> with the structure of \<open>T\<close>; the dump of \<open>T'\<close> is
  written too, and parses, under the same two conditions, to a document with the
  structure of \<open>T\<close> again. This holds whatever the three unassigned locals of the
  scanner contain otherwise. The \<^verbatim>\<open>quoted\<close> flags are not part of the structure:
  every entry comes back quoted.
\<close>

theorem dump_parse_round_trip:
  assumes "document_ok T"
  shows "\<exists>out. DumpToStream T = Returns out \<and>
     (length out \<le> 2147483647 \<and> no_leading_comment u out \<longrightarrow>
       (\<exists>T'. ParseString u KeyValues_new out = Returns (True, T', []) \<and> same_structure T' T \<and>
          (\<exists>out'. DumpToStream T' = Returns out' \<and>
             (length out' \<le> 2147483647 \<and> no_leading_comment u' out' \<longrightarrow>
               (\<exists>T''. ParseString u' KeyValues_new out' = Returns (True, T'', []) \<and>
                  same_structure T'' T)))))"
proof -
  from dump_document [OF assms] obtain out where out: "DumpToStream T = Returns out" by blast
  have "\<exists>T'. ParseString u KeyValues_new out = Returns (True, T', []) \<and> same_structure T' T \<and>
          (\<exists>out'. DumpToStream T' = Returns out' \<and>
             (length out' \<le> 2147483647 \<and> no_leading_comment u' out' \<longrightarrow>
               (\<exists>T''. ParseString u' KeyValues_new out' = Returns (True, T'', []) \<and>
                  same_structure T'' T)))"
    if len: "length out \<le> 2147483647" and lead: "no_leading_comment u out"
  proof -
    from parse_of_dump [OF assms out len lead] obtain T' where
      p: "ParseString u KeyValues_new out = Returns (True, T', [])"
      and s: "same_structure T' T" and ok': "document_ok T'" by blast
    from dump_document [OF ok'] obtain out' where out': "DumpToStream T' = Returns out'" by blast
    have "\<exists>T''. ParseString u' KeyValues_new out' = Returns (True, T'', []) \<and>
                  same_structure T'' T"
      if "length out' \<le> 2147483647" "no_leading_comment u' out'"
      using parse_of_dump [OF ok' out' that] s by (auto simp: same_structure_def)
    with p s out' show ?thesis by blast
  qed
  with out show ?thesis by blast
qed

theorem dump_parse_round_trip_witness:
  "document_ok small_document \<and>
   DumpToStream small_document = Returns small_document_text \<and>
   no_leading_comment some_garbage small_document_text \<and>
   (\<exists>T'. ParseString some_garbage KeyValues_new small_document_text = Returns (True, T', []) \<and>
      same_structure T' small_document)"
proof -
  have ok: "document_ok small_document"
    by (simp add: document_ok_def small_document_def key_ok_def token_ok_def bare_token_def
          quoted_token_def plain_char_def internal_isspace_def nesting_def)
  have d: "DumpToStream small_document = Returns small_document_text"
    by (simp add: DumpToStream_def small_document_def small_document_text_def dump_key_def
          tabs_def)
  have l: "length small_document_text \<le> 2147483647"
    "no_leading_comment some_garbage small_document_text"
    by (simp_all add: small_document_text_def no_leading_comment_def some_garbage_def)
  from dump_parse_round_trip [OF ok, of some_garbage some_garbage] d l
  have "\<exists>T'. ParseString some_garbage KeyValues_new small_document_text = Returns (True, T', []) \<and>
      same_structure T' small_document"
    by auto
  with ok d l show ?thesis by simp
qed

end
